theory Spec2Isabelle
  imports Complex_Main "HOL-Library.Word"
begin

section \<open>BmapCreator: block map generation for sparse image files\<close>

text \<open>
  A shallow embedding of \<^verbatim>\<open>bmaptools/BmapCreator.py\<close> (Python 2). Python integers are
  \<open>int\<close>, the image file is a list of bytes with a read position, every exception the
  code can raise is a value of \<open>error\<close>, and everything the program does to the
  outside (ioctl calls, text handed to the output logger) is appended to a trace of events.
\<close>

subsection \<open>Exceptions\<close>

text \<open>
  An \<^verbatim>\<open>IOError\<close>/\<^verbatim>\<open>OSError\<close> raised by the operating system: \<open>errno\<close>, \<open>strerror\<close> and
  the text of \<^verbatim>\<open>str(err)\<close>.
\<close>

datatype oserror = OSError (errno: int) (strerror: string) (str_of: string)

text \<open>
  \<open>Error\<close> is the module's own exception class \<^verbatim>\<open>Error(strerror, errno = None)\<close>. The
  other constructors are the built-in exceptions that the code lets escape.
\<close>

datatype error =
    Error string "int option"
  | IOError oserror
  | UnboundLocalError string
  | ZeroDivisionError
  | StructError
  | TypeError

definition EPERM :: int where "EPERM = 1"
definition EACCES :: int where "EACCES = 13"

subsection \<open>The world: image file, read position, trace\<close>

type_synonym byte = "8 word"

text \<open>
  \<open>Ioctl request arg\<close> is a call of \<^verbatim>\<open>ioctl\<close> on the image file; \<open>Info s\<close> is a call of
  \<^verbatim>\<open>self._output.info(s)\<close>.
\<close>

datatype event =
    Ioctl int int
  | Info string

record world =
  image_bytes :: "byte list"
  pos :: nat
  events :: "event list"

text \<open>
  The answers of the environment. \<open>fibmap\<close> is the FIBMAP ioctl (number 1): the disk block
  a file block is mapped to, zero for a hole. \<open>figetbsz\<close> is the FIGETBSZ ioctl (number 2).
  \<open>human_size\<close> is \<^verbatim>\<open>BmapHelpers.human_size\<close>, \<open>sha1_hexdigest\<close> is \<^verbatim>\<open>hashlib.sha1\<close>
  followed by \<^verbatim>\<open>hexdigest()\<close>, and \<open>fmt_f1\<close> is the float conversion \<^verbatim>\<open>%.1f\<close>; these
  three are not part of the module and are taken as parameters.
\<close>

record os =
  open_err :: "oserror option"
  figetbsz :: "oserror + 32 word"
  fibmap :: "int \<Rightarrow> oserror + 32 word"
  flush_err :: "oserror option"
  fsync_err :: "oserror option"
  read_err :: "nat \<Rightarrow> oserror option"
  human_size :: "int \<Rightarrow> string"
  sha1_hexdigest :: "byte list \<Rightarrow> string"
  fmt_f1 :: "real \<Rightarrow> string"

definition info :: "string \<Rightarrow> world \<Rightarrow> world" where
  "info s w = w\<lparr>events := events w @ [Info s]\<rparr>"

subsection \<open>Text formatting\<close>

definition nl :: string where "nl = [CHR 0x0A]"
definition tab :: string where "tab = [CHR 0x09]"
definition dq :: string where "dq = [CHR 0x22]"
definition sq :: string where "sq = [CHR 0x27]"

fun digits :: "nat \<Rightarrow> string" where
  "digits n =
     (if n < 10 then [''0123456789'' ! n]
      else digits (n div 10) @ [''0123456789'' ! (n mod 10)])"

declare digits.simps [simp del]

text \<open>\<^verbatim>\<open>"%u" % i\<close> and \<^verbatim>\<open>"%s" % i\<close> for a Python integer: its decimal digits.\<close>

definition str_int :: "int \<Rightarrow> string" where
  "str_int i = (if i < 0 then ''-'' @ digits (nat (- i)) else digits (nat i))"

definition bmap_version :: string where "bmap_version = ''1.2''"

subsection \<open>The class BmapCreator\<close>

text \<open>
  The attributes of an instance. The three \<open>bmap_mapped\<close> attributes are \<^verbatim>\<open>None\<close> until
  \<^verbatim>\<open>generate\<close> assigns them.
\<close>

record creator =
  image_path :: string
  bmap_image_size :: int
  bmap_block_size :: int
  bmap_blocks_cnt :: int
  bmap_mapped_cnt :: "int option"
  bmap_mapped_size :: "int option"
  bmap_mapped_percent :: "real option"

text \<open>
  \<^verbatim>\<open>_is_mapped\<close>. \<^verbatim>\<open>pack('I', block)\<close> raises \<^verbatim>\<open>struct.error\<close> outside of
  \<open>[0, 2^32)\<close>, before any ioctl is issued; an \<^verbatim>\<open>IOError\<close> of the ioctl becomes an
  \<open>Error\<close> with the same errno.
\<close>

definition fibmap_failed_message :: "string \<Rightarrow> oserror \<Rightarrow> string" where
  "fibmap_failed_message path err =
     ''the FIBMAP ioctl failed for '' @ sq @ path @ sq @ '': '' @ str_of err"

definition is_mapped :: "os \<Rightarrow> string \<Rightarrow> int \<Rightarrow> world \<Rightarrow> (error + bool) \<times> world" where
  "is_mapped os path block w =
     (if block < 0 \<or> 2 ^ 32 \<le> block then (Inl StructError, w)
      else
        let w' = w\<lparr>events := events w @ [Ioctl 1 block]\<rparr> in
        (case fibmap os block of
           Inl err \<Rightarrow> (Inl (Error (fibmap_failed_message path err) (Some (errno err))), w')
         | Inr result \<Rightarrow> (Inr (result \<noteq> 0), w')))"

definition permission_message :: string where
  "permission_message =
     ''you do not have permissions to use the FIBMAP '' @
     ''ioctl which requires a '' @ sq @ ''CAP_SYS_RAWIO'' @ sq @ '' '' @
     ''capability, try to become '' @ sq @ ''root'' @ sq"

text \<open>
  The \<^verbatim>\<open>raise\<close> statement of the zero-size check. Its second argument is \<^verbatim>\<open>err.errno\<close>,
  where \<open>err\<close> is the variable of the \<^verbatim>\<open>except IOError as err\<close> clause around \<^verbatim>\<open>open\<close>.
  The arguments are evaluated before \<open>Error\<close> is constructed; when the clause did not run,
  \<open>err\<close> is unbound and the evaluation raises \<^verbatim>\<open>UnboundLocalError\<close>.
\<close>

definition raise_zero_sized :: "string \<Rightarrow> oserror option \<Rightarrow> error" where
  "raise_zero_sized path err =
     (case err of
        None \<Rightarrow> UnboundLocalError ''err''
      | Some e \<Rightarrow>
          Error (''cannot generate bmap for zero-sized image file '' @ sq @ path @ sq)
                (Some (errno e)))"

text \<open>
  \<^verbatim>\<open>__init__\<close>. The size reported by \<^verbatim>\<open>fstat\<close> is the length of the image. The division
  is Python 2 integer division, which raises on a zero block size.
\<close>

definition init :: "os \<Rightarrow> string \<Rightarrow> world \<Rightarrow> (error + creator) \<times> world" where
  "init os path w =
     (case open_err os of
        Some err \<Rightarrow>
          (Inl (Error (''cannot open image file '' @ sq @ path @ sq @ '': '' @ str_of err)
                      (Some (errno err))), w)
      | None \<Rightarrow>
          let image_size = int (length (image_bytes w)) in
          if image_size = 0 then (Inl (raise_zero_sized path None), w)
          else
            let w1 = w\<lparr>events := events w @ [Ioctl 2 0]\<rparr> in
            (case figetbsz os of
               Inl err \<Rightarrow>
                 (Inl (Error (''cannot get block size for '' @ sq @ path @ sq @ '': '' @ str_of err)
                             (Some (errno err))), w1)
             | Inr binary_data \<Rightarrow>
                 let block_size = uint binary_data in
                 if block_size = 0 then (Inl ZeroDivisionError, w1)
                 else
                   let blocks_cnt = (image_size + block_size - 1) div block_size;
                       self = \<lparr>image_path = path, bmap_image_size = image_size,
                               bmap_block_size = block_size, bmap_blocks_cnt = blocks_cnt,
                               bmap_mapped_cnt = None, bmap_mapped_size = None,
                               bmap_mapped_percent = None\<rparr>
                   in
                   (case is_mapped os path 0 w1 of
                      (Inl (Error msg en), w2) \<Rightarrow>
                        if en = Some EPERM \<or> en = Some EACCES
                        then (Inl (Error permission_message en), w2)
                        else (Inl (Error msg en), w2)
                    | (Inl e, w2) \<Rightarrow> (Inl e, w2)
                    | (Inr _, w2) \<Rightarrow> (Inr self, w2))))"


text \<open>
  \<^verbatim>\<open>_bmap_file_start\<close>: the header comment, image size, block size and block count, handed
  to the logger as one text.
\<close>

definition bmap_file_start_xml :: "os \<Rightarrow> creator \<Rightarrow> string" where
  "bmap_file_start_xml os self =
     ''<?xml version='' @ dq @ ''1.0'' @ dq @ '' ?>'' @ nl @ nl @
     ''<!-- This file contains block map for an image file. The block map'' @ nl @
     ''     is basically a list of block numbers in the image file. It lists'' @ nl @
     ''     only those blocks which contain data (boot sector, partition'' @ nl @
     ''     table, file-system metadata, files, directories, extents, etc).'' @ nl @
     ''     These blocks have to be copied to the target device. The other'' @ nl @
     ''     blocks do not contain any useful data and do not have to be'' @ nl @
     ''     copied to the target device. Thus, using the block map users can'' @ nl @
     ''     flash the image fast. So the block map is just an optimization.'' @ nl @
     ''     It is OK to ignore this file and just flash the entire image to'' @ nl @
     ''     the target device if the flashing speed is not important.'' @ nl @ nl @
     ''     Note, this file contains commentaries with useful information'' @ nl @
     ''     like image size in gigabytes, percentage of mapped data, etc.'' @ nl @
     ''     This data is there merely to make the XML file human-readable.'' @ nl @ nl @
     ''     The '' @ sq @ ''version'' @ sq @ '' attribute is the block map file format version in'' @ nl @
     ''     the '' @ sq @ ''major.minor'' @ sq @ '' format. The version major number is increased'' @ nl @
     ''     whenever we make incompatible changes to the block map format,'' @ nl @
     ''     meaning that the bmap-aware flasher would have to be modified in'' @ nl @
     ''     order to support the new format. The minor version is increased'' @ nl @
     ''     in case of compatible changes. For example, if we add an attribute'' @ nl @
     ''     which is optional for the bmap-aware flasher. -->'' @ nl @ nl @
     ''<bmap version='' @ dq @ bmap_version @ dq @ ''>'' @ nl @
     tab @ ''<!-- Image size in bytes ('' @ human_size os (bmap_image_size self) @ '') -->'' @ nl @
     tab @ ''<ImageSize> '' @ str_int (bmap_image_size self) @ '' </ImageSize>'' @ nl @ nl @
     tab @ ''<!-- Size of a block in bytes -->'' @ nl @
     tab @ ''<BlockSize> '' @ str_int (bmap_block_size self) @ '' </BlockSize>'' @ nl @ nl @
     tab @ ''<!-- Count of blocks in the image file -->'' @ nl @
     tab @ ''<BlocksCount> '' @ str_int (bmap_blocks_cnt self) @ '' </BlocksCount>'' @ nl @ nl @
     tab @ ''<!-- The block map which consists of elements which may'' @ nl @
     tab @ ''     either be a range of blocks or a single block. The'' @ nl @
     tab @ ''    '' @ sq @ ''sha1'' @ sq @ '' attribute (if present) is the SHA1 checksum of'' @ nl @
     tab @ ''     this blocks range. -->'' @ nl @
     tab @ ''<BlockMap>''"

definition bmap_file_start :: "os \<Rightarrow> creator \<Rightarrow> world \<Rightarrow> world" where
  "bmap_file_start os self w = info (bmap_file_start_xml os self) w"

text \<open>
  \<^verbatim>\<open>_bmap_file_end\<close>: the closing tags and the count of mapped blocks, with the mapped
  size and percentage in a comment.
\<close>

definition bmap_file_end_xml :: "os \<Rightarrow> int \<Rightarrow> real \<Rightarrow> int \<Rightarrow> string" where
  "bmap_file_end_xml os mapped_size mapped_percent mapped_cnt =
     tab @ ''</BlockMap>'' @ nl @ nl @
     tab @ ''<!-- Count of mapped blocks ('' @ human_size os mapped_size @ '' or '' @
       fmt_f1 os mapped_percent @ ''% mapped) -->'' @ nl @
     tab @ ''<MappedBlocksCount> '' @ str_int mapped_cnt @ '' </MappedBlocksCount>'' @ nl @
     ''</bmap>''"

definition bmap_file_end :: "os \<Rightarrow> creator \<Rightarrow> world \<Rightarrow> (error + unit) \<times> world" where
  "bmap_file_end os self w =
     (case (bmap_mapped_size self, bmap_mapped_percent self, bmap_mapped_cnt self) of
        (Some mapped_size, Some mapped_percent, Some mapped_cnt) \<Rightarrow>
          (Inr (), info (bmap_file_end_xml os mapped_size mapped_percent mapped_cnt) w)
      | _ \<Rightarrow> (Inl TypeError, w))"

subsection \<open>Checksums\<close>

text \<open>
  \<^verbatim>\<open>self._f_image.read(n)\<close> on the image: the bytes from the read position, at most \<open>n\<close>
  of them (all of them for a negative \<open>n\<close>), fewer at the end of the file; the position
  advances by the number of bytes returned. A failing read raises \<^verbatim>\<open>IOError\<close>.
\<close>

definition file_read :: "os \<Rightarrow> world \<Rightarrow> int \<Rightarrow> (error + byte list) \<times> world" where
  "file_read os w n =
     (case read_err os (pos w) of
        Some err \<Rightarrow> (Inl (IOError err), w)
      | None \<Rightarrow>
          let rest = drop (pos w) (image_bytes w);
              chunk = (if n < 0 then rest else take (nat n) rest)
          in (Inr chunk, w\<lparr>pos := pos w + length chunk\<rparr>))"

text \<open>
  The \<^verbatim>\<open>while\<close> loop of \<^verbatim>\<open>_calculate_sha1\<close>, for any file object with a \<open>read\<close> method. The
  hash object is the list of the bytes it has been fed with. The loop is a partial
  function: \<open>None\<close> is a loop that does not return.
\<close>

partial_function (option) sha1_loop ::
  "('f \<Rightarrow> int \<Rightarrow> (error + byte list) \<times> 'f) \<Rightarrow> int \<Rightarrow> int \<Rightarrow> int \<Rightarrow> byte list \<Rightarrow> 'f
     \<Rightarrow> ((error + byte list) \<times> 'f) option" where
  "sha1_loop rd to_read chunk_size read hash_obj f =
     (if read < to_read then
        let chunk_size' = (if read + chunk_size > to_read then to_read - read else chunk_size) in
        (case rd f chunk_size' of
           (Inl e, f') \<Rightarrow> Some (Inl e, f')
         | (Inr chunk, f') \<Rightarrow>
             sha1_loop rd to_read chunk_size' (read + chunk_size') (hash_obj @ chunk) f')
      else Some (Inr hash_obj, f))"

text \<open>\<^verbatim>\<open>_calculate_sha1\<close>. Nothing in it moves the read position but the reads.\<close>

definition calculate_sha1 ::
  "(byte list \<Rightarrow> string) \<Rightarrow> ('f \<Rightarrow> int \<Rightarrow> (error + byte list) \<times> 'f) \<Rightarrow> int \<Rightarrow> int \<Rightarrow> int \<Rightarrow> 'f
     \<Rightarrow> ((error + string) \<times> 'f) option" where
  "calculate_sha1 hexdigest rd block_size first_block last_block f =
     (let start = first_block * block_size;
          end_offset = (last_block + 1) * block_size;
          chunk_size = 1024 * 1024;
          to_read = end_offset - start
      in case sha1_loop rd to_read chunk_size 0 [] f of
           None \<Rightarrow> None
         | Some (Inl e, f') \<Rightarrow> Some (Inl e, f')
         | Some (Inr hash_obj, f') \<Rightarrow> Some (Inr (hexdigest hash_obj), f'))"

subsection \<open>Ranges of mapped blocks\<close>

text \<open>
  \<^verbatim>\<open>_get_ranges\<close> is a generator; the body of the \<^verbatim>\<open>for\<close> loop that consumes it is the
  argument \<open>yield\<close>, called at each \<^verbatim>\<open>yield first, last\<close> with the loop's own state, so
  that the calls of \<^verbatim>\<open>_is_mapped\<close> and the runs of the body interleave as they do in Python.

  \<^verbatim>\<open>groupby(xrange(n), self._is_mapped)\<close> calls the key function once on each block, in
  order, and starts a new group whenever the key changes. In \<open>get_ranges_loop\<close> the
  current group has the key \<open>key\<close>, begins at \<open>first\<close> and has reached \<open>last\<close>: a next block
  with the same key extends it (\<^verbatim>\<open>for last in group: pass\<close>; a group with a false key is
  skipped by \<^verbatim>\<open>groupby\<close> in the same way), a next block with another key ends it, and so
  does the end of the blocks. A group that ends is yielded if its key is true.
\<close>

fun get_ranges_loop ::
  "(int \<Rightarrow> world \<Rightarrow> (error + bool) \<times> world) \<Rightarrow>
   (int \<times> int \<Rightarrow> 'a \<Rightarrow> world \<Rightarrow> ((error + 'a) \<times> world) option) \<Rightarrow>
   bool \<Rightarrow> int \<Rightarrow> int \<Rightarrow> int list \<Rightarrow> 'a \<Rightarrow> world \<Rightarrow> ((error + 'a) \<times> world) option" where
  "get_ranges_loop keyfunc yield key first_block last_block [] a w =
     (if key then yield (first_block, last_block) a w else Some (Inr a, w))"
| "get_ranges_loop keyfunc yield key first_block last_block (block # blocks) a w =
     (case keyfunc block w of
        (Inl e, w') \<Rightarrow> Some (Inl e, w')
      | (Inr key', w') \<Rightarrow>
          if key' = key then get_ranges_loop keyfunc yield key first_block block blocks a w'
          else
            (case (if key then yield (first_block, last_block) a w' else Some (Inr a, w')) of
               None \<Rightarrow> None
             | Some (Inl e, w'') \<Rightarrow> Some (Inl e, w'')
             | Some (Inr a', w'') \<Rightarrow>
                 get_ranges_loop keyfunc yield key' block block blocks a' w''))"

definition get_ranges ::
  "os \<Rightarrow> creator \<Rightarrow> (int \<times> int \<Rightarrow> 'a \<Rightarrow> world \<Rightarrow> ((error + 'a) \<times> world) option) \<Rightarrow>
   'a \<Rightarrow> world \<Rightarrow> ((error + 'a) \<times> world) option" where
  "get_ranges os self yield a w =
     (case [0..bmap_blocks_cnt self - 1] of
        [] \<Rightarrow> Some (Inr a, w)
      | block # blocks \<Rightarrow>
          (case is_mapped os (image_path self) block w of
             (Inl e, w') \<Rightarrow> Some (Inl e, w')
           | (Inr key, w') \<Rightarrow>
               get_ranges_loop (is_mapped os (image_path self)) yield key block block blocks a w'))"

text \<open>\<^verbatim>\<open>list(self._get_ranges())\<close>: the loop body that collects what is yielded.\<close>

definition collect :: "int \<times> int \<Rightarrow> (int \<times> int) list \<Rightarrow> world \<Rightarrow> ((error + (int \<times> int) list) \<times> world) option" where
  "collect r acc w = Some (Inr (acc @ [r]), w)"

definition ranges_list :: "os \<Rightarrow> creator \<Rightarrow> world \<Rightarrow> ((error + (int \<times> int) list) \<times> world) option" where
  "ranges_list os self w = get_ranges os self collect [] w"

subsection \<open>Generation\<close>

definition range_xml :: "string \<Rightarrow> int \<Rightarrow> int \<Rightarrow> string" where
  "range_xml sha1 first_block last_block =
     tab @ tab @ ''<Range'' @ sha1 @ ''> '' @ str_int first_block @ ''-'' @ str_int last_block @ '' </Range>''"

definition sha1_attr :: "string \<Rightarrow> string" where
  "sha1_attr sha1 = '' sha1 ='' @ dq @ sha1 @ dq"

text \<open>
  The body of the \<^verbatim>\<open>for\<close> loop of \<^verbatim>\<open>generate\<close>; its state is \<^verbatim>\<open>self.bmap_mapped_cnt\<close>.
\<close>

definition generate_body ::
  "os \<Rightarrow> creator \<Rightarrow> bool \<Rightarrow> int \<times> int \<Rightarrow> int \<Rightarrow> world \<Rightarrow> ((error + int) \<times> world) option" where
  "generate_body os self include_checksums r mapped_cnt w =
     (case r of (first_block, last_block) \<Rightarrow>
        let mapped_cnt' = mapped_cnt + (last_block - first_block + 1) in
        if include_checksums then
          (case calculate_sha1 (sha1_hexdigest os) (file_read os) (bmap_block_size self) first_block last_block w of
             None \<Rightarrow> None
           | Some (Inl e, w') \<Rightarrow> Some (Inl e, w')
           | Some (Inr sha1, w') \<Rightarrow>
               Some (Inr mapped_cnt', info (range_xml (sha1_attr sha1) first_block last_block) w'))
        else Some (Inr mapped_cnt', info (range_xml [] first_block last_block) w))"

text \<open>
  \<^verbatim>\<open>generate\<close>. The percentage is a Python float; it is modelled by the exact quotient.
  The float division raises on a zero block count.
\<close>

definition generate :: "os \<Rightarrow> creator \<Rightarrow> bool \<Rightarrow> world \<Rightarrow> ((error + creator) \<times> world) option" where
  "generate os self include_checksums w =
     (let w1 = bmap_file_start os self w;
          w2 = w1\<lparr>pos := 0\<rparr>
      in case flush_err os of
           Some err \<Rightarrow>
             Some (Inl (Error (''cannot flush image file '' @ sq @ image_path self @ sq @ '': '' @ str_of err)
                              (Some (errno err))), w2)
         | None \<Rightarrow>
             (case fsync_err os of
                Some err \<Rightarrow>
                  Some (Inl (Error (''cannot synchronize image file '' @ sq @ image_path self @ sq @ '': '' @
                                      strerror err @ '' '')
                                   (Some (errno err))), w2)
              | None \<Rightarrow>
                  (case get_ranges os self (generate_body os self include_checksums) 0 w2 of
                     None \<Rightarrow> None
                   | Some (Inl e, w3) \<Rightarrow> Some (Inl e, w3)
                   | Some (Inr mapped_cnt, w3) \<Rightarrow>
                       if bmap_blocks_cnt self = 0 then Some (Inl ZeroDivisionError, w3)
                       else
                         let self' = self\<lparr>
                               bmap_mapped_cnt := Some mapped_cnt,
                               bmap_mapped_size := Some (mapped_cnt * bmap_block_size self),
                               bmap_mapped_percent :=
                                 Some (real_of_int mapped_cnt * 100 / real_of_int (bmap_blocks_cnt self))\<rparr>
                         in (case bmap_file_end os self' w3 of
                               (Inl e, w4) \<Rightarrow> Some (Inl e, w4)
                             | (Inr _, w4) \<Rightarrow> Some (Inr self', w4)))))"

section \<open>Observations and examples\<close>

text \<open>The blocks queried with FIBMAP and the texts handed to the logger, in a trace.\<close>

fun fibmap_queries :: "event list \<Rightarrow> int list" where
  "fibmap_queries [] = []"
| "fibmap_queries (Ioctl request block # evs) =
     (if request = 1 then block # fibmap_queries evs else fibmap_queries evs)"
| "fibmap_queries (Info s # evs) = fibmap_queries evs"

fun outputs :: "event list \<Rightarrow> string list" where
  "outputs [] = []"
| "outputs (Ioctl request arg # evs) = outputs evs"
| "outputs (Info s # evs) = s # outputs evs"

text \<open>
  The world after the two ioctl calls of \<^verbatim>\<open>__init__\<close>, and the instance it builds from an
  image size and a block size.
\<close>

definition probe_world :: "world \<Rightarrow> world" where
  "probe_world w = w\<lparr>events := events w @ [Ioctl 2 0, Ioctl 1 0]\<rparr>"

definition new_creator :: "string \<Rightarrow> int \<Rightarrow> int \<Rightarrow> creator" where
  "new_creator path image_size block_size =
     \<lparr>image_path = path, bmap_image_size = image_size,
      bmap_block_size = block_size,
      bmap_blocks_cnt = (image_size + block_size - 1) div block_size,
      bmap_mapped_cnt = None, bmap_mapped_size = None, bmap_mapped_percent = None\<rparr>"

text \<open>
  An environment and a world to run the model on: every system call succeeds, the block
  size is 4096 and \<open>answers\<close> is the FIBMAP ioctl. The three text functions stand in for
  the library functions of the same role.
\<close>

definition example_os :: "(int \<Rightarrow> oserror + 32 word) \<Rightarrow> os" where
  "example_os answers =
     \<lparr>open_err = None, figetbsz = Inr 4096, fibmap = answers,
      flush_err = None, fsync_err = None, read_err = (\<lambda>p. None),
      human_size = (\<lambda>n. str_int n @ '' bytes''),
      sha1_hexdigest = (\<lambda>bs. str_int (int (length bs))),
      fmt_f1 = (\<lambda>x. str_int \<lfloor>x\<rfloor>)\<rparr>"

definition example_world :: "byte list \<Rightarrow> world" where
  "example_world bs = \<lparr>image_bytes = bs, pos = 0, events = []\<rparr>"


text \<open>
  A file object that records, for each call of \<open>read\<close>, the size requested and the bytes
  returned, around any other file object.
\<close>

definition logged ::
  "('f \<Rightarrow> int \<Rightarrow> (error + byte list) \<times> 'f) \<Rightarrow>
   'f \<times> (int \<times> byte list) list \<Rightarrow> int \<Rightarrow> (error + byte list) \<times> ('f \<times> (int \<times> byte list) list)" where
  "logged rd s n =
     (case s of (f, lg) \<Rightarrow>
        (case rd f n of
           (Inl e, f') \<Rightarrow> (Inl e, (f', lg @ [(n, [])]))
         | (Inr chunk, f') \<Rightarrow> (Inr chunk, (f', lg @ [(n, chunk)]))))"


section \<open>The scan as a sequence of steps\<close>

text \<open>
  What \<^verbatim>\<open>_is_mapped\<close> returns for a block, and the events it adds to the trace: neither
  depends on the world it runs in.
\<close>

definition is_mapped_result :: "os \<Rightarrow> string \<Rightarrow> int \<Rightarrow> error + bool" where
  "is_mapped_result os path block =
     (if block < 0 \<or> 2 ^ 32 \<le> block then Inl StructError
      else (case fibmap os block of
              Inl err \<Rightarrow> Inl (Error (fibmap_failed_message path err) (Some (errno err)))
            | Inr result \<Rightarrow> Inr (result \<noteq> 0)))"

definition is_mapped_events :: "int \<Rightarrow> event list" where
  "is_mapped_events block = (if block < 0 \<or> 2 ^ 32 \<le> block then [] else [Ioctl 1 block])"

text \<open>
  The steps of \<open>get_ranges_loop\<close> as data: the events of the calls of \<^verbatim>\<open>_is_mapped\<close> and
  the ranges yielded, in the order in which they happen, and the error that ends the scan
  if a call fails. \<open>plan\<close> follows the equations of \<open>get_ranges_loop\<close>; \<open>exec\<close> runs the
  steps with a loop body.
\<close>

datatype step = Ev event | Yield int int

fun plan :: "os \<Rightarrow> string \<Rightarrow> bool \<Rightarrow> int \<Rightarrow> int \<Rightarrow> int list \<Rightarrow> step list \<times> error option" where
  "plan os path key first_block last_block [] =
     ((if key then [Yield first_block last_block] else []), None)"
| "plan os path key first_block last_block (block # blocks) =
     (case is_mapped_result os path block of
        Inl e \<Rightarrow> (map Ev (is_mapped_events block), Some e)
      | Inr key' \<Rightarrow>
          (case (if key' = key then plan os path key first_block block blocks
                 else plan os path key' block block blocks) of
             (steps, fin) \<Rightarrow>
               (map Ev (is_mapped_events block) @
                (if key' \<noteq> key \<and> key then [Yield first_block last_block] else []) @ steps,
                fin)))"

fun exec ::
  "(int \<times> int \<Rightarrow> 'a \<Rightarrow> world \<Rightarrow> ((error + 'a) \<times> world) option) \<Rightarrow> step list \<Rightarrow> error option \<Rightarrow>
   'a \<Rightarrow> world \<Rightarrow> ((error + 'a) \<times> world) option" where
  "exec yield [] fin a w = Some ((case fin of None \<Rightarrow> Inr a | Some e \<Rightarrow> Inl e), w)"
| "exec yield (Ev e # steps) fin a w = exec yield steps fin a (w\<lparr>events := events w @ [e]\<rparr>)"
| "exec yield (Yield first_block last_block # steps) fin a w =
     (case yield (first_block, last_block) a w of
        None \<Rightarrow> None
      | Some (Inl e, w') \<Rightarrow> Some (Inl e, w')
      | Some (Inr a', w') \<Rightarrow> exec yield steps fin a' w')"

fun yields :: "step list \<Rightarrow> (int \<times> int) list" where
  "yields [] = []"
| "yields (Ev e # steps) = yields steps"
| "yields (Yield first_block last_block # steps) = (first_block, last_block) # yields steps"

fun step_events :: "step list \<Rightarrow> event list" where
  "step_events [] = []"
| "step_events (Ev e # steps) = e # step_events steps"
| "step_events (Yield first_block last_block # steps) = step_events steps"

text \<open>
  A block is answered if the FIBMAP ioctl succeeds on it, and mapped if the answer is not
  zero. \<open>blocks_of\<close> lists the blocks of a list of ranges; two ranges are apart if at
  least one block lies between the end of the first and the start of the second.
\<close>

definition answered :: "os \<Rightarrow> int \<Rightarrow> bool" where
  "answered os block = (case fibmap os block of Inl err \<Rightarrow> False | Inr result \<Rightarrow> True)"

definition mapped :: "os \<Rightarrow> int \<Rightarrow> bool" where
  "mapped os block = (case fibmap os block of Inl err \<Rightarrow> False | Inr result \<Rightarrow> result \<noteq> 0)"

definition blocks_of :: "(int \<times> int) list \<Rightarrow> int list" where
  "blocks_of rs = concat (map (\<lambda>(first_block, last_block). [first_block..last_block]) rs)"

definition apart :: "int \<times> int \<Rightarrow> int \<times> int \<Rightarrow> bool" where
  "apart r1 r2 = (snd r1 + 2 \<le> fst r2)"

text \<open>
  An instance for an image of a number of blocks of 4096 bytes, and a FIBMAP ioctl that
  maps the blocks 0, 1, 3 and 5.
\<close>

definition example_creator :: "int \<Rightarrow> creator" where
  "example_creator blocks_cnt = new_creator ''image.raw'' (blocks_cnt * 4096) 4096"

definition example_pattern :: "int \<Rightarrow> oserror + 32 word" where
  "example_pattern block = Inr (if block \<in> {0, 1, 3, 5} then 7 else 0)"

section \<open>Traces of a generation\<close>

text \<open>
  The event of a step: a call of the ioctl is its own event, a yielded range is handed to
  the logger as a range element, with or without a checksum. \<open>range_length\<close> is the
  number of blocks of a range.
\<close>

fun emits :: "step \<Rightarrow> event \<Rightarrow> bool" where
  "emits (Ev e) ev = (ev = e)"
| "emits (Yield first_block last_block) ev = (\<exists>sha1. ev = Info (range_xml sha1 first_block last_block))"

definition range_length :: "int \<times> int \<Rightarrow> int" where
  "range_length r = snd r - fst r + 1"

definition range_element :: "string \<times> int \<times> int \<Rightarrow> string" where
  "range_element item = (case item of (sha1, first_block, last_block) \<Rightarrow> range_xml sha1 first_block last_block)"

text \<open>
  A range is yielded right after the call that ended its run: the query of the block
  after its last block, or the query of its last block when that is block \<open>e\<close>, the last
  of the image. \<open>adj\<close> says so of a list of steps that follows the step \<open>prev\<close>, and
  \<open>after_discovery\<close> of a range element \<open>s\<close> that follows the events \<open>pre\<close>.
\<close>

fun adj :: "int \<Rightarrow> step \<Rightarrow> step list \<Rightarrow> bool" where
  "adj e prev [] = True"
| "adj e prev (Ev x # steps) = adj e (Ev x) steps"
| "adj e prev (Yield first_block last_block # steps) =
     ((prev = Ev (Ioctl 1 (last_block + 1)) \<or> (prev = Ev (Ioctl 1 last_block) \<and> last_block = e)) \<and>
      adj e (Yield first_block last_block) steps)"

definition is_query :: "step \<Rightarrow> bool" where
  "is_query s = (\<exists>b. s = Ev (Ioctl 1 b))"

definition after_discovery :: "int \<Rightarrow> event list \<Rightarrow> string \<Rightarrow> bool" where
  "after_discovery blocks_cnt pre s \<longleftrightarrow>
     (\<exists>sha1 first_block last_block.
        s = range_xml sha1 first_block last_block \<and> pre \<noteq> [] \<and>
        (last pre = Ioctl 1 (last_block + 1) \<or>
         (last pre = Ioctl 1 last_block \<and> last_block = blocks_cnt - 1)))"

text \<open>
  The steps of the scan of \<^verbatim>\<open>generate\<close>, the instance after a generation that counted
  \<open>mapped_cnt\<close> blocks, and the text of its footer. An environment is benign if flushing,
  synchronising and reading the image do not fail.
\<close>

definition scan_plan :: "os \<Rightarrow> creator \<Rightarrow> step list \<times> error option" where
  "scan_plan os self = plan os (image_path self) False (- 1) (- 1) [0..bmap_blocks_cnt self - 1]"

definition finished :: "creator \<Rightarrow> int \<Rightarrow> creator" where
  "finished self mapped_cnt =
     self\<lparr>bmap_mapped_cnt := Some mapped_cnt,
          bmap_mapped_size := Some (mapped_cnt * bmap_block_size self),
          bmap_mapped_percent :=
            Some (real_of_int mapped_cnt * 100 / real_of_int (bmap_blocks_cnt self))\<rparr>"

definition footer :: "os \<Rightarrow> creator \<Rightarrow> int \<Rightarrow> string" where
  "footer os self mapped_cnt =
     bmap_file_end_xml os (mapped_cnt * bmap_block_size self)
       (real_of_int mapped_cnt * 100 / real_of_int (bmap_blocks_cnt self)) mapped_cnt"

definition benign :: "os \<Rightarrow> bool" where
  "benign os \<longleftrightarrow> flush_err os = None \<and> fsync_err os = None \<and> (\<forall>p. read_err os p = None)"

text \<open>
  The trace of the generation on the image of six blocks above, without checksums.
\<close>

definition example_events :: "event list" where
  "example_events =
     [Info (bmap_file_start_xml (example_os example_pattern) (example_creator 6)),
      Ioctl 1 0, Ioctl 1 1, Ioctl 1 2, Info (range_xml [] 0 1),
      Ioctl 1 3, Ioctl 1 4, Info (range_xml [] 3 3),
      Ioctl 1 5, Info (range_xml [] 5 5),
      Info (footer (example_os example_pattern) (example_creator 6) 4)]"

text \<open>
  An image of two blocks of 4096 bytes: block 0 is a hole, which reads as zeros, and block
  1 is mapped and holds ones.
\<close>

definition hole_then_data :: "int \<Rightarrow> oserror + 32 word" where
  "hole_then_data block = Inr (if block = 1 then 7 else 0)"

definition hole_then_data_image :: "byte list" where
  "hole_then_data_image = replicate 4096 0 @ replicate 4096 1"

text \<open>
  An image of \<open>2^32 + 1\<close> blocks of 4096 bytes.
\<close>

definition big_image :: "byte list" where
  "big_image = replicate (4096 * (2 ^ 32 + 1)) 0"

section \<open>Properties\<close>

subsection \<open>Construction\<close>

lemma fibmap_queries_append [simp]:
  "fibmap_queries (xs @ ys) = fibmap_queries xs @ fibmap_queries ys"
  by (induction xs rule: fibmap_queries.induct) simp_all

lemma outputs_append [simp]: "outputs (xs @ ys) = outputs xs @ outputs ys"
  by (induction xs rule: outputs.induct) simp_all

lemma ceil_div:
  fixes s b :: int
  assumes "0 < b"
  shows "\<lceil>real_of_int s / real_of_int b\<rceil> = (s + b - 1) div b"
proof (rule ceiling_unique)
  define q where "q = (s + b - 1) div b"
  define r where "r = (s + b - 1) mod b"
  have m: "s + b - 1 = q * b + r" by (simp add: q_def r_def)
  have r0: "0 \<le> r" and r1: "r < b"
    using assms by (simp_all add: r_def)
  have lo: "(q - 1) * b < s" using m r0 by (simp add: algebra_simps)
  have hi: "s \<le> q * b" using m r1 by (simp add: algebra_simps)
  have "real_of_int ((q - 1) * b) < real_of_int s" using lo by (simp only: of_int_less_iff)
  then show "real_of_int ((s + b - 1) div b) - 1 < real_of_int s / real_of_int b"
    using assms by (simp add: pos_less_divide_eq q_def)
  have "real_of_int s \<le> real_of_int (q * b)" using hi by (simp only: of_int_le_iff)
  then show "real_of_int s / real_of_int b \<le> real_of_int ((s + b - 1) div b)"
    using assms by (simp add: pos_divide_le_eq q_def)
qed

lemma ceil_div_covers:
  fixes s b :: int
  assumes "0 < b"
  shows "s \<le> (s + b - 1) div b * b"
proof -
  define q where "q = (s + b - 1) div b"
  define r where "r = (s + b - 1) mod b"
  have m: "s + b - 1 = q * b + r" by (simp add: q_def r_def)
  have "r < b" using assms by (simp add: r_def)
  with m show ?thesis unfolding q_def [symmetric] by (simp add: algebra_simps)
qed

lemma is_mapped_0:
  "is_mapped os path 0 w =
     (case fibmap os 0 of
        Inl err \<Rightarrow>
          (Inl (Error (fibmap_failed_message path err) (Some (errno err))),
           w\<lparr>events := events w @ [Ioctl 1 0]\<rparr>)
      | Inr result \<Rightarrow> (Inr (result \<noteq> 0), w\<lparr>events := events w @ [Ioctl 1 0]\<rparr>))"
  by (simp add: is_mapped_def Let_def)

lemma init_probe:
  assumes "open_err os = None" and "image_bytes w \<noteq> []"
    and "figetbsz os = Inr bsz" and "bsz \<noteq> 0"
  shows "init os path w =
     (case fibmap os 0 of
        Inl err \<Rightarrow>
          (Inl (if errno err = EPERM \<or> errno err = EACCES
                then Error permission_message (Some (errno err))
                else Error (fibmap_failed_message path err) (Some (errno err))),
           probe_world w)
      | Inr result \<Rightarrow>
          (Inr (new_creator path (int (length (image_bytes w))) (uint bsz)), probe_world w))"
proof -
  have z: "uint bsz \<noteq> 0" using assms(4) by (simp add: uint_0_iff)
  show ?thesis
    using assms(1,2,3) z
    by (cases "fibmap os 0")
       (simp_all add: init_def Let_def is_mapped_0 probe_world_def new_creator_def)
qed

lemma uint_pos: "bsz \<noteq> 0 \<Longrightarrow> 0 < uint (bsz :: 32 word)"
  by (metis uint_0_iff uint_ge_0 order_less_le)

text \<open>
  Claim C6. When construction gets as far as computing it (the image opens, is not empty,
  FIGETBSZ answers a block size that is not zero, and the probe of block 0 succeeds),
  the instance is returned with a positive image size and block size, its block count is
  the ceiling of image size over block size, and block count times block size is at least
  the image size.
\<close>

theorem blocks_cnt_is_ceiling:
  assumes "open_err os = None" and "image_bytes w \<noteq> []"
    and "figetbsz os = Inr bsz" and "bsz \<noteq> 0" and "fibmap os 0 = Inr r"
  shows "case init os path w of
           (Inl e, w') \<Rightarrow> False
         | (Inr self, w') \<Rightarrow>
             bmap_image_size self = int (length (image_bytes w)) \<and>
             bmap_block_size self = uint bsz \<and>
             0 < bmap_image_size self \<and> 0 < bmap_block_size self \<and>
             bmap_blocks_cnt self =
               \<lceil>real_of_int (bmap_image_size self) / real_of_int (bmap_block_size self)\<rceil> \<and>
             bmap_image_size self \<le> bmap_blocks_cnt self * bmap_block_size self"
proof -
  have b: "0 < uint bsz" using assms(4) by (rule uint_pos)
  have s: "0 < int (length (image_bytes w))" using assms(2) by simp
  have i: "init os path w =
      (Inr (new_creator path (int (length (image_bytes w))) (uint bsz)), probe_world w)"
    using init_probe [OF assms(1-4)] assms(5) by simp
  show ?thesis
    unfolding i
    using b s ceil_div [OF b, of "int (length (image_bytes w))"]
      ceil_div_covers [OF b, of "int (length (image_bytes w))"]
    by (simp add: new_creator_def)
qed

theorem blocks_cnt_is_ceiling_witness:
  "case init (example_os (\<lambda>b. Inr 7)) ''image.raw'' (example_world (replicate 10000 1)) of
     (Inl e, w') \<Rightarrow> False
   | (Inr self, w') \<Rightarrow>
       bmap_image_size self = 10000 \<and> bmap_block_size self = 4096 \<and>
       bmap_blocks_cnt self = 3 \<and>
       bmap_blocks_cnt self =
         \<lceil>real_of_int (bmap_image_size self) / real_of_int (bmap_block_size self)\<rceil> \<and>
       bmap_image_size self \<le> bmap_blocks_cnt self * bmap_block_size self"
proof -
  let ?os = "example_os (\<lambda>b. Inr 7)"
  let ?w = "example_world (replicate 10000 1)"
  have h: "open_err ?os = None" "image_bytes ?w \<noteq> []" "figetbsz ?os = Inr 4096"
    "(4096 :: 32 word) \<noteq> 0" "fibmap ?os 0 = Inr 7"
    by (simp_all add: example_os_def example_world_def)
  have c: "(10000 + 4096 - 1) div 4096 = (3 :: int)" by simp
  show ?thesis
    using blocks_cnt_is_ceiling [OF h, of "''image.raw''"] c
    by (simp add: example_world_def split: prod.splits sum.splits)
qed

text \<open>
  Claim C5. On an image of size zero that opens without error, \<^verbatim>\<open>__init__\<close> does not raise
  the module's \<open>Error\<close> with the zero-size message: the \<^verbatim>\<open>raise\<close> statement reads the
  unbound variable \<open>err\<close>, and what escapes is \<^verbatim>\<open>UnboundLocalError\<close>. Nothing has been
  handed to the logger at that point.
\<close>

theorem zero_sized_image_raises_unbound_local:
  "init (example_os (\<lambda>b. Inr 7)) ''image.raw'' (example_world []) =
     (Inl (UnboundLocalError ''err''), example_world [])"
  by (simp add: init_def example_os_def example_world_def raise_zero_sized_def)

text \<open>
  Claim C8. When construction reaches the probe, \<^verbatim>\<open>__init__\<close> issues exactly one FIBMAP
  query, on block 0, and hands nothing to the logger. If the probe fails with EPERM or
  EACCES the error raised carries the permission message and the errno; if it fails with
  any other errno the error of \<^verbatim>\<open>_is_mapped\<close> is raised unchanged; the permission
  message differs from every message of \<^verbatim>\<open>_is_mapped\<close>.
\<close>

theorem probe_once_at_startup:
  assumes "open_err os = None" and "image_bytes w \<noteq> []"
    and "figetbsz os = Inr bsz" and "bsz \<noteq> 0"
  shows "case init os path w of (res, w') \<Rightarrow>
           fibmap_queries (events w') = fibmap_queries (events w) @ [0] \<and>
           outputs (events w') = outputs (events w) \<and>
           (\<forall>err. fibmap os 0 = Inl err \<longrightarrow> errno err = EPERM \<or> errno err = EACCES \<longrightarrow>
              res = Inl (Error permission_message (Some (errno err)))) \<and>
           (\<forall>err. fibmap os 0 = Inl err \<longrightarrow> errno err \<noteq> EPERM \<longrightarrow> errno err \<noteq> EACCES \<longrightarrow>
              res = Inl (Error (fibmap_failed_message path err) (Some (errno err)))) \<and>
           (\<forall>r. fibmap os 0 = Inr r \<longrightarrow> (\<exists>self. res = Inr self)) \<and>
           (\<forall>p err. permission_message \<noteq> fibmap_failed_message p err)"
proof -
  have d: "permission_message \<noteq> fibmap_failed_message p err" for p err
    by (simp add: permission_message_def fibmap_failed_message_def)
  show ?thesis
    unfolding init_probe [OF assms]
    using d by (cases "fibmap os 0") (simp_all add: probe_world_def)
qed

theorem probe_once_at_startup_witness:
  "case init (example_os (\<lambda>b. if b = 0 then Inl (OSError 13 ''Permission denied'' ''[Errno 13] Permission denied'') else Inr 7))
        ''image.raw'' (example_world (replicate 10000 1)) of (res, w') \<Rightarrow>
     res = Inl (Error permission_message (Some 13)) \<and> fibmap_queries (events w') = [0] \<and>
     outputs (events w') = []"
proof -
  let ?err = "OSError 13 ''Permission denied'' ''[Errno 13] Permission denied''"
  let ?os = "example_os (\<lambda>b. if b = 0 then Inl ?err else Inr 7)"
  let ?w = "example_world (replicate 10000 1)"
  have h: "open_err ?os = None" "image_bytes ?w \<noteq> []" "figetbsz ?os = Inr 4096"
    "(4096 :: 32 word) \<noteq> 0"
    by (simp_all add: example_os_def example_world_def)
  have f: "fibmap ?os 0 = Inl ?err" by (simp add: example_os_def)
  show ?thesis
    using probe_once_at_startup [OF h, of "''image.raw''"]
    unfolding f
    by (simp add: example_world_def EACCES_def split: prod.splits)
qed

subsection \<open>The checksum loop\<close>

lemma sha1_loop_returns:
  "0 < chunk_size \<Longrightarrow> \<exists>r. sha1_loop rd to_read chunk_size read hash_obj f = Some r"
proof (induction "nat (to_read - read)" arbitrary: chunk_size read hash_obj f rule: less_induct)
  case less
  show ?case
  proof (cases "read < to_read")
    case False
    then show ?thesis by (subst sha1_loop.simps) simp
  next
    case True
    define c where "c = (if read + chunk_size > to_read then to_read - read else chunk_size)"
    have c: "0 < c" using less.prems True by (simp add: c_def)
    obtain res f' where rd: "rd f c = (res, f')" by (cases "rd f c")
    show ?thesis
    proof (cases res)
      case (Inl e)
      with True rd show ?thesis by (subst sha1_loop.simps) (simp add: c_def [symmetric])
    next
      case (Inr chunk)
      have "nat (to_read - (read + c)) < nat (to_read - read)" using c True by simp
      from less.hyps [OF this c]
      obtain r where "sha1_loop rd to_read c (read + c) (hash_obj @ chunk) f' = Some r" by blast
      with True rd Inr show ?thesis by (subst sha1_loop.simps) (simp add: c_def [symmetric])
    qed
  qed
qed

lemma sha1_loop_run:
  assumes "0 < chunk_size" and "chunk_size \<le> 2 ^ 20"
  shows "\<exists>res f' new.
           sha1_loop (logged rd) to_read chunk_size read hash_obj (f, lg) = Some (res, (f', lg @ new)) \<and>
           sha1_loop rd to_read chunk_size read hash_obj f = Some (res, f') \<and>
           (\<forall>(n, chunk) \<in> set new. 0 < n \<and> n \<le> 2 ^ 20) \<and>
           (\<forall>e. res = Inl e \<longrightarrow> (\<exists>f0 n. fst (rd f0 n) = Inl e)) \<and>
           (\<forall>h. res = Inr h \<longrightarrow>
              h = hash_obj @ concat (map snd new) \<and>
              sum_list (map fst new) = max 0 (to_read - read))"
  using assms
proof (induction "nat (to_read - read)" arbitrary: chunk_size read hash_obj f lg rule: less_induct)
  case less
  show ?case
  proof (cases "read < to_read")
    case False
    have 1: "sha1_loop (logged rd) to_read chunk_size read hash_obj (f, lg) = Some (Inr hash_obj, (f, lg @ []))"
      using False by (subst sha1_loop.simps) simp
    have 2: "sha1_loop rd to_read chunk_size read hash_obj f = Some (Inr hash_obj, f)"
      using False by (subst sha1_loop.simps) simp
    show ?thesis
      using False
      by (intro exI [where x = "[]"] exI [where x = f] exI [where x = "Inr hash_obj"] conjI 1 2) simp_all
  next
    case True
    define c where "c = (if read + chunk_size > to_read then to_read - read else chunk_size)"
    have c: "0 < c" "c \<le> 2 ^ 20" "c \<le> to_read - read"
      using less.prems True by (simp_all add: c_def)
    obtain res f' where rd: "rd f c = (res, f')" by (cases "rd f c")
    show ?thesis
    proof (cases res)
      case (Inl e)
      have 1: "sha1_loop (logged rd) to_read chunk_size read hash_obj (f, lg) =
              Some (Inl e, (f', lg @ [(c, [])]))"
        using True rd Inl by (subst sha1_loop.simps) (simp add: c_def [symmetric] logged_def)
      have 2: "sha1_loop rd to_read chunk_size read hash_obj f = Some (Inl e, f')"
        using True rd Inl by (subst sha1_loop.simps) (simp add: c_def [symmetric])
      have 3: "\<forall>(n, chunk) \<in> set [(c, [] :: byte list)]. 0 < n \<and> n \<le> 2 ^ 20" using c by simp
      have "fst (rd f c) = Inl e" using rd Inl by simp
      then have 4: "\<forall>e'. (Inl e :: error + byte list) = Inl e' \<longrightarrow> (\<exists>f0 n. fst (rd f0 n) = Inl e')"
        by blast
      have 5: "\<forall>h. (Inl e :: error + byte list) = Inr h \<longrightarrow>
              h = hash_obj @ concat (map snd [(c, [] :: byte list)]) \<and>
              sum_list (map fst [(c, [] :: byte list)]) = max 0 (to_read - read)"
        by simp
      show ?thesis
        by (intro exI [where x = "[(c, [])]"] exI [where x = f'] exI [where x = "Inl e"]
              conjI 1 2 3 4 5)
    next
      case (Inr chunk)
      have m: "nat (to_read - (read + c)) < nat (to_read - read)" using c True by simp
      from less.hyps [OF m c(1,2), of "hash_obj @ chunk" f' "lg @ [(c, chunk)]"]
      obtain res' f'' new where
        l: "sha1_loop (logged rd) to_read c (read + c) (hash_obj @ chunk) (f', lg @ [(c, chunk)])
              = Some (res', (f'', (lg @ [(c, chunk)]) @ new))" and
        p: "sha1_loop rd to_read c (read + c) (hash_obj @ chunk) f' = Some (res', f'')" and
        b: "\<forall>(n, chunk) \<in> set new. 0 < n \<and> n \<le> 2 ^ 20" and
        e: "\<forall>e. res' = Inl e \<longrightarrow> (\<exists>f0 n. fst (rd f0 n) = Inl e)" and
        h: "\<forall>h. res' = Inr h \<longrightarrow>
              h = (hash_obj @ chunk) @ concat (map snd new) \<and>
              sum_list (map fst new) = max 0 (to_read - (read + c))"
        by blast
      have 1: "sha1_loop (logged rd) to_read chunk_size read hash_obj (f, lg) =
              Some (res', (f'', lg @ ((c, chunk) # new)))"
        using True rd Inr l by (subst sha1_loop.simps) (simp add: c_def [symmetric] logged_def)
      have 2: "sha1_loop rd to_read chunk_size read hash_obj f = Some (res', f'')"
        using True rd Inr p by (subst sha1_loop.simps) (simp add: c_def [symmetric])
      have 3: "\<forall>(n, chunk) \<in> set ((c, chunk) # new). 0 < n \<and> n \<le> 2 ^ 20"
        using b c by simp
      have 5: "\<forall>h. res' = Inr h \<longrightarrow>
              h = hash_obj @ concat (map snd ((c, chunk) # new)) \<and>
              sum_list (map fst ((c, chunk) # new)) = max 0 (to_read - read)"
        using h c True by auto
      show ?thesis
        by (intro exI [where x = "(c, chunk) # new"] exI [where x = f''] exI [where x = res']
              conjI 1 2 3 e 5)
    qed
  qed
qed

lemma calculate_sha1_returns:
  "\<exists>r. calculate_sha1 hexdigest rd block_size first_block last_block f = Some r"
proof -
  obtain res f' where
    "sha1_loop rd ((last_block + 1) * block_size - first_block * block_size) (1024 * 1024) 0 [] f
       = Some (res, f')"
    using sha1_loop_returns [of "1024 * 1024" rd _ 0 "[]" f] by fastforce
  then show ?thesis by (cases res) (simp_all add: calculate_sha1_def)
qed

text \<open>
  Claim C10. For every block size, range, digest function and file object, whatever its
  reads return, \<^verbatim>\<open>_calculate_sha1\<close> returns, and its run over a file object that records
  its reads returns what its run over the file object itself returns. Every read it issues
  asks for at least one and at most \<open>2^20\<close> bytes. It fails only with the error of a read
  that failed, so it returns a digest when no read fails. When it returns a digest, the
  sizes asked for add up to \<open>(last - first + 1) * block_size\<close> (to nothing when that is
  negative), whatever the number of bytes each read returned, and the digest is the digest
  of the bytes returned, in order.
\<close>

theorem checksum_loop_terminates:
  "case calculate_sha1 hexdigest (logged rd) block_size first_block last_block (f, []) of
      None \<Rightarrow> False
    | Some (res, f', lg) \<Rightarrow>
        calculate_sha1 hexdigest rd block_size first_block last_block f = Some (res, f') \<and>
        (\<forall>(n, chunk) \<in> set lg. 0 < n \<and> n \<le> 2 ^ 20) \<and>
        (\<forall>e. res = Inl e \<longrightarrow> (\<exists>f0 n. fst (rd f0 n) = Inl e)) \<and>
        ((\<forall>f0 n. \<exists>chunk. fst (rd f0 n) = Inr chunk) \<longrightarrow> (\<exists>digest. res = Inr digest)) \<and>
        (\<forall>digest. res = Inr digest \<longrightarrow>
           sum_list (map fst lg) = max 0 ((last_block - first_block + 1) * block_size) \<and>
           digest = hexdigest (concat (map snd lg)))"
proof -
  let ?t = "(last_block + 1) * block_size - first_block * block_size"
  have t: "?t = (last_block - first_block + 1) * block_size" by (simp add: algebra_simps)
  from sha1_loop_run [of "1024 * 1024" rd ?t 0 "[]" f "[]"]
  obtain res f' new where
    l: "sha1_loop (logged rd) ?t (1024 * 1024) 0 [] (f, []) = Some (res, (f', [] @ new))" and
    p: "sha1_loop rd ?t (1024 * 1024) 0 [] f = Some (res, f')" and
    b: "\<forall>(n, chunk) \<in> set new. 0 < n \<and> n \<le> 2 ^ 20" and
    e: "\<forall>e. res = Inl e \<longrightarrow> (\<exists>f0 n. fst (rd f0 n) = Inl e)" and
    h: "\<forall>h. res = Inr h \<longrightarrow> h = [] @ concat (map snd new) \<and>
          sum_list (map fst new) = max 0 (?t - 0)"
    by auto
  show ?thesis
  proof (cases res)
    case (Inl err)
    from e Inl have x: "\<exists>f0 n. fst (rd f0 n) = Inl err" by simp
    then obtain f0 n where "fst (rd f0 n) = Inl err" by blast
    then have y: "\<not> (\<forall>f0 n. \<exists>chunk. fst (rd f0 n) = Inr chunk)"
      by (metis sum.distinct(1))
    have cl: "calculate_sha1 hexdigest (logged rd) block_size first_block last_block (f, []) =
        Some (Inl err, (f', new))"
      using l Inl by (simp add: calculate_sha1_def)
    have cp: "calculate_sha1 hexdigest rd block_size first_block last_block f = Some (Inl err, f')"
      using p Inl by (simp add: calculate_sha1_def)
    show ?thesis unfolding cl using cp b x y by simp
  next
    case (Inr hash_obj)
    have cl: "calculate_sha1 hexdigest (logged rd) block_size first_block last_block (f, []) =
        Some (Inr (hexdigest hash_obj), (f', new))"
      using l Inr by (simp add: calculate_sha1_def)
    have cp: "calculate_sha1 hexdigest rd block_size first_block last_block f =
        Some (Inr (hexdigest hash_obj), f')"
      using p Inr by (simp add: calculate_sha1_def)
    from h Inr have h1: "hash_obj = concat (map snd new)" and
      h2: "sum_list (map fst new) = max 0 (?t - 0)" by simp_all
    have h3: "sum_list (map fst new) = max 0 ((last_block - first_block + 1) * block_size)"
      using h2 unfolding t by simp
    show ?thesis unfolding cl using cp b h1 h3 by simp
  qed
qed

theorem checksum_loop_terminates_witness:
  "calculate_sha1 (sha1_hexdigest (example_os (\<lambda>b. Inr 7))) (logged (file_read (example_os (\<lambda>b. Inr 7))))
       4096 0 299 (example_world (replicate 5000 1), []) =
     Some (Inr (sha1_hexdigest (example_os (\<lambda>b. Inr 7)) (replicate 5000 1)),
           (example_world (replicate 5000 1)\<lparr>pos := 5000\<rparr>,
            [(1048576, replicate 5000 1), (180224, [])])) \<and>
   calculate_sha1 (sha1_hexdigest (example_os (\<lambda>b. Inr 7))) (file_read (example_os (\<lambda>b. Inr 7)))
       4096 0 299 (example_world (replicate 5000 1)) =
     Some (Inr (sha1_hexdigest (example_os (\<lambda>b. Inr 7)) (replicate 5000 1)),
           example_world (replicate 5000 1)\<lparr>pos := 5000\<rparr>) \<and>
   sum_list (map fst [(1048576 :: int, replicate 5000 (1 :: byte)), (180224, [])]) =
     max 0 ((299 - 0 + 1) * 4096)"
proof -
  have e: "calculate_sha1 (sha1_hexdigest (example_os (\<lambda>b. Inr 7))) (logged (file_read (example_os (\<lambda>b. Inr 7))))
       4096 0 299 (example_world (replicate 5000 1), []) =
     Some (Inr (sha1_hexdigest (example_os (\<lambda>b. Inr 7)) (replicate 5000 1)),
           (example_world (replicate 5000 1)\<lparr>pos := 5000\<rparr>,
            [(1048576, replicate 5000 1), (180224, [])]))"
    by (simp add: calculate_sha1_def sha1_loop.simps logged_def file_read_def example_os_def
          example_world_def Let_def)
  show ?thesis
    using checksum_loop_terminates [of "sha1_hexdigest (example_os (\<lambda>b. Inr 7))"
        "file_read (example_os (\<lambda>b. Inr 7))" 4096 0 299 "example_world (replicate 5000 1)"]
    unfolding e by simp
qed

subsection \<open>The ranges of mapped blocks\<close>

lemma is_mapped_eq:
  "is_mapped os path block w =
     (is_mapped_result os path block, w\<lparr>events := events w @ is_mapped_events block\<rparr>)"
  by (cases "fibmap os block")
     (simp_all add: is_mapped_def is_mapped_result_def is_mapped_events_def Let_def)

lemma exec_append_events:
  "exec yield (map Ev evs @ steps) fin a w = exec yield steps fin a (w\<lparr>events := events w @ evs\<rparr>)"
  by (induction evs arbitrary: w) simp_all

lemma exec_events:
  "exec yield (map Ev evs) fin a w =
     Some ((case fin of None \<Rightarrow> Inr a | Some e \<Rightarrow> Inl e), w\<lparr>events := events w @ evs\<rparr>)"
  using exec_append_events [of yield evs "[]" fin a w] by simp

lemma get_ranges_loop_plan:
  "get_ranges_loop (is_mapped os path) yield key first_block last_block blocks a w =
     (case plan os path key first_block last_block blocks of
        (steps, fin) \<Rightarrow> exec yield steps fin a w)"
proof (induction blocks arbitrary: key first_block last_block a w)
  case Nil
  show ?case by (simp split: option.splits sum.splits prod.splits)
next
  case (Cons block blocks)
  define w' where "w' = w\<lparr>events := events w @ is_mapped_events block\<rparr>"
  have k: "is_mapped os path block w = (is_mapped_result os path block, w')"
    by (simp add: is_mapped_eq w'_def)
  show ?case
  proof (cases "is_mapped_result os path block")
    case (Inl e)
    then show ?thesis
      by (simp add: k exec_events w'_def)
  next
    case (Inr key')
    show ?thesis
    proof (cases "key' = key")
      case True
      with Inr show ?thesis
        by (simp add: k exec_append_events Cons.IH w'_def split: prod.splits)
    next
      case False
      show ?thesis
      proof (cases key)
        case True
        with Inr False show ?thesis
          by (simp add: k exec_append_events Cons.IH w'_def
                split: prod.splits option.splits sum.splits)
      next
        case k': False
        with Inr False show ?thesis
          by (simp add: k exec_append_events Cons.IH w'_def split: prod.splits)
      qed
    qed
  qed
qed

lemma plan_unmapped_group:
  "plan os path False f l blocks = plan os path False f' l' blocks"
proof (induction blocks arbitrary: f l f' l')
  case Nil
  show ?case by simp
next
  case (Cons block blocks)
  show ?case
  proof (cases "is_mapped_result os path block")
    case (Inl e)
    then show ?thesis by simp
  next
    case (Inr key')
    then show ?thesis using Cons.IH [of f block f' block] by (cases key') simp_all
  qed
qed

lemma get_ranges_plan:
  "get_ranges os self yield a w =
     (case plan os (image_path self) False (- 1) (- 1) [0..bmap_blocks_cnt self - 1] of
        (steps, fin) \<Rightarrow> exec yield steps fin a w)"
proof (cases "[0..bmap_blocks_cnt self - 1]")
  case Nil
  then show ?thesis by (simp add: get_ranges_def)
next
  case (Cons block blocks)
  define w' where "w' = w\<lparr>events := events w @ is_mapped_events block\<rparr>"
  have k: "is_mapped os (image_path self) block w = (is_mapped_result os (image_path self) block, w')"
    by (simp add: is_mapped_eq w'_def)
  show ?thesis
  proof (cases "is_mapped_result os (image_path self) block")
    case (Inl e)
    with Cons show ?thesis
      by (simp add: get_ranges_def k exec_events w'_def)
  next
    case (Inr key)
    show ?thesis
    proof (cases key)
      case True
      with Cons Inr show ?thesis
        by (simp add: get_ranges_def k exec_append_events get_ranges_loop_plan w'_def
              split: prod.splits)
    next
      case False
      with Cons Inr show ?thesis
        using plan_unmapped_group [of os "image_path self" block block blocks "- 1" block]
        by (simp add: get_ranges_def k exec_append_events get_ranges_loop_plan w'_def
              split: prod.splits)
    qed
  qed
qed

lemma is_mapped_result_answered:
  "0 \<le> b \<Longrightarrow> b < 2 ^ 32 \<Longrightarrow> answered os b \<Longrightarrow>
     is_mapped_result os path b = Inr (mapped os b) \<and> is_mapped_events b = [Ioctl 1 b]"
  by (cases "fibmap os b")
     (simp_all add: is_mapped_result_def is_mapped_events_def answered_def mapped_def)

lemma blocks_of_simps [simp]:
  "blocks_of [] = []"
  "blocks_of ((f, l) # rs) = [f..l] @ blocks_of rs"
  by (simp_all add: blocks_of_def)

lemma plan_total:
  assumes "\<forall>b. l < b \<and> b \<le> e \<longrightarrow> 0 \<le> b \<and> b < 2 ^ 32 \<and> answered os b"
    and "f \<le> l" and "l \<le> e"
  shows "\<exists>steps. plan os path key f l [l + 1..e] = (steps, None) \<and>
           (\<forall>r \<in> set (yields steps). fst r \<le> snd r \<and> snd r \<le> e \<and> (if key then f \<le> fst r else l < fst r)) \<and>
           sorted_wrt apart (yields steps) \<and>
           (\<forall>x. x \<in> set (blocks_of (yields steps)) \<longleftrightarrow>
                (key \<and> f \<le> x \<and> x \<le> l) \<or> (l < x \<and> x \<le> e \<and> mapped os x))"
  using assms
proof (induction "nat (e - l)" arbitrary: key f l)
  case 0
  then have "l = e" by simp
  then show ?case using "0.prems"(2) by (cases key) auto
next
  case (Suc n)
  define b where "b = l + 1"
  have le: "l < e" using Suc.hyps(2) by simp
  have up: "[l + 1..e] = b # [b + 1..e]" using le by (simp add: b_def upto_rec1)
  have bb: "0 \<le> b" "b < 2 ^ 32" "answered os b"
    using Suc.prems(1) [rule_format, of b] le by (simp_all add: b_def)
  have q: "is_mapped_result os path b = Inr (mapped os b)" "is_mapped_events b = [Ioctl 1 b]"
    using is_mapped_result_answered [OF bb, of path] by blast+
  have n: "n = nat (e - b)" using Suc.hyps(2) by (simp add: b_def)
  have tot: "\<forall>c. b < c \<and> c \<le> e \<longrightarrow> 0 \<le> c \<and> c < 2 ^ 32 \<and> answered os c"
    using Suc.prems(1) by (simp add: b_def)
  have be: "b \<le> e" using le by (simp add: b_def)
  show ?case
  proof (cases "mapped os b = key")
    case True
    have fb: "f \<le> b" using Suc.prems(2) by (simp add: b_def)
    from Suc.hyps(1) [OF n tot fb be, of key]
    obtain steps where
      p: "plan os path key f b [b + 1..e] = (steps, None)" and
      r: "\<forall>r \<in> set (yields steps). fst r \<le> snd r \<and> snd r \<le> e \<and> (if key then f \<le> fst r else b < fst r)" and
      s: "sorted_wrt apart (yields steps)" and
      c: "\<forall>x. x \<in> set (blocks_of (yields steps)) \<longleftrightarrow>
                (key \<and> f \<le> x \<and> x \<le> b) \<or> (b < x \<and> x \<le> e \<and> mapped os x)"
      by blast
    let ?st = "Ev (Ioctl 1 b) # steps"
    have y: "yields ?st = yields steps" by simp
    have p': "plan os path key f l [l + 1..e] = (?st, None)"
      unfolding up using q True p by simp
    have r': "\<forall>r \<in> set (yields ?st). fst r \<le> snd r \<and> snd r \<le> e \<and> (if key then f \<le> fst r else l < fst r)"
      unfolding y using r by (auto simp: b_def)
    have s': "sorted_wrt apart (yields ?st)" unfolding y by (rule s)
    have c': "\<forall>x. x \<in> set (blocks_of (yields ?st)) \<longleftrightarrow>
                (key \<and> f \<le> x \<and> x \<le> l) \<or> (l < x \<and> x \<le> e \<and> mapped os x)"
      unfolding y
    proof
      fix x
      show "x \<in> set (blocks_of (yields steps)) \<longleftrightarrow>
                (key \<and> f \<le> x \<and> x \<le> l) \<or> (l < x \<and> x \<le> e \<and> mapped os x)"
        using c [rule_format, of x] True fb be
        by (cases "x = b") (auto simp: b_def)
    qed
    show ?thesis by (rule exI [where x = ?st]) (intro conjI p' r' s' c')
  next
    case False
    from Suc.hyps(1) [OF n tot order_refl be, of "mapped os b"]
    obtain steps where
      p: "plan os path (mapped os b) b b [b + 1..e] = (steps, None)" and
      r: "\<forall>r \<in> set (yields steps). fst r \<le> snd r \<and> snd r \<le> e \<and> (if mapped os b then b \<le> fst r else b < fst r)" and
      s: "sorted_wrt apart (yields steps)" and
      c: "\<forall>x. x \<in> set (blocks_of (yields steps)) \<longleftrightarrow>
                (mapped os b \<and> b \<le> x \<and> x \<le> b) \<or> (b < x \<and> x \<le> e \<and> mapped os x)"
      by blast
    show ?thesis
    proof (cases key)
      case True
      then have nm: "\<not> mapped os b" using False by simp
      let ?st = "Ev (Ioctl 1 b) # Yield f l # steps"
      have y: "yields ?st = (f, l) # yields steps" by simp
      have p': "plan os path key f l [l + 1..e] = (?st, None)"
        unfolding up using q True nm p by simp
      have r': "\<forall>r \<in> set (yields ?st).
                  fst r \<le> snd r \<and> snd r \<le> e \<and> (if key then f \<le> fst r else l < fst r)"
        unfolding y using r nm True Suc.prems(2) le by (auto simp: b_def)
      have s': "sorted_wrt apart (yields ?st)"
        unfolding y using s r nm by (auto simp: apart_def b_def)
      have c': "\<forall>x. x \<in> set (blocks_of (yields ?st)) \<longleftrightarrow>
                (key \<and> f \<le> x \<and> x \<le> l) \<or> (l < x \<and> x \<le> e \<and> mapped os x)"
        unfolding y
      proof
        fix x
        show "x \<in> set (blocks_of ((f, l) # yields steps)) \<longleftrightarrow>
                (key \<and> f \<le> x \<and> x \<le> l) \<or> (l < x \<and> x \<le> e \<and> mapped os x)"
          using c [rule_format, of x] True nm be
          by (cases "x = b") (auto simp: b_def)
      qed
      show ?thesis by (rule exI [where x = ?st]) (intro conjI p' r' s' c')
    next
      case k: False
      then have m: "mapped os b" using False by simp
      let ?st = "Ev (Ioctl 1 b) # steps"
      have y: "yields ?st = yields steps" by simp
      have p': "plan os path key f l [l + 1..e] = (?st, None)"
        unfolding up using q k m p by simp
      have r': "\<forall>r \<in> set (yields ?st).
                  fst r \<le> snd r \<and> snd r \<le> e \<and> (if key then f \<le> fst r else l < fst r)"
        unfolding y using r m k by (auto simp: b_def)
      have s': "sorted_wrt apart (yields ?st)" unfolding y by (rule s)
      have c': "\<forall>x. x \<in> set (blocks_of (yields ?st)) \<longleftrightarrow>
                (key \<and> f \<le> x \<and> x \<le> l) \<or> (l < x \<and> x \<le> e \<and> mapped os x)"
        unfolding y
      proof
        fix x
        show "x \<in> set (blocks_of (yields steps)) \<longleftrightarrow>
                (key \<and> f \<le> x \<and> x \<le> l) \<or> (l < x \<and> x \<le> e \<and> mapped os x)"
          using c [rule_format, of x] k m be
          by (cases "x = b") (auto simp: b_def)
      qed
      show ?thesis by (rule exI [where x = ?st]) (intro conjI p' r' s' c')
    qed
  qed
qed

lemma blocks_of_mem:
  "x \<in> set (blocks_of rs) \<longleftrightarrow> (\<exists>r \<in> set rs. fst r \<le> x \<and> x \<le> snd r)"
  by (induction rs) auto

lemma blocks_of_distinct:
  "sorted_wrt apart rs \<Longrightarrow> \<forall>r \<in> set rs. fst r \<le> snd r \<Longrightarrow> distinct (blocks_of rs)"
proof (induction rs)
  case Nil
  show ?case by simp
next
  case (Cons r rs)
  obtain f l where r: "r = (f, l)" by (cases r)
  have d: "distinct (blocks_of rs)" using Cons by simp
  have "x \<notin> set (blocks_of rs)" if "f \<le> x" "x \<le> l" for x
  proof
    assume "x \<in> set (blocks_of rs)"
    then obtain r' where r': "r' \<in> set rs" "fst r' \<le> x" by (auto simp: blocks_of_mem)
    with Cons.prems(1) have "apart r r'" by simp
    with r r' that show False by (simp add: apart_def)
  qed
  with d show ?case by (auto simp: r)
qed

lemma exec_collect:
  "exec collect steps fin acc w =
     Some ((case fin of None \<Rightarrow> Inr (acc @ yields steps) | Some e \<Rightarrow> Inl e),
           w\<lparr>events := events w @ step_events steps\<rparr>)"
proof (induction steps arbitrary: acc w fin)
  case Nil
  show ?case by (cases fin) simp_all
next
  case (Cons s steps)
  show ?case
  proof (cases s)
    case (Ev e)
    show ?thesis unfolding Ev by (cases fin) (simp_all add: Cons.IH)
  next
    case (Yield f l)
    have c: "collect (f, l) acc w = Some (Inr (acc @ [(f, l)]), w)"
      by (simp add: collect_def)
    show ?thesis unfolding Yield by (cases fin) (simp_all add: c Cons.IH)
  qed
qed

lemma ranges_list_total:
  assumes "bmap_blocks_cnt self \<le> 2 ^ 32"
    and "\<forall>b. 0 \<le> b \<and> b < bmap_blocks_cnt self \<longrightarrow> answered os b"
  shows "\<exists>rs w'. ranges_list os self w = Some (Inr rs, w') \<and>
           (\<forall>r \<in> set rs. 0 \<le> fst r \<and> fst r \<le> snd r \<and> snd r < bmap_blocks_cnt self) \<and>
           sorted_wrt apart rs \<and>
           (\<forall>x. x \<in> set (blocks_of rs) \<longleftrightarrow> 0 \<le> x \<and> x < bmap_blocks_cnt self \<and> mapped os x)"
proof (cases "0 \<le> bmap_blocks_cnt self")
  case False
  then have "[0..bmap_blocks_cnt self - 1] = []" by simp
  then have "ranges_list os self w = Some (Inr [], w)"
    by (simp add: ranges_list_def get_ranges_plan)
  with False show ?thesis by simp
next
  case True
  define e where "e = bmap_blocks_cnt self - 1"
  have tot: "\<forall>b. - 1 < b \<and> b \<le> e \<longrightarrow> 0 \<le> b \<and> b < 2 ^ 32 \<and> answered os b"
    using assms by (auto simp: e_def)
  have le: "- 1 \<le> e" using True by (simp add: e_def)
  from plan_total [OF tot order_refl le, of "image_path self" False]
  obtain steps where
    p: "plan os (image_path self) False (- 1) (- 1) [0..e] = (steps, None)" and
    r: "\<forall>r \<in> set (yields steps). fst r \<le> snd r \<and> snd r \<le> e \<and> - 1 < fst r" and
    s: "sorted_wrt apart (yields steps)" and
    c: "\<forall>x. x \<in> set (blocks_of (yields steps)) \<longleftrightarrow> (- 1 < x \<and> x \<le> e \<and> mapped os x)"
    by auto
  have l: "ranges_list os self w =
          Some (Inr (yields steps), w\<lparr>events := events w @ step_events steps\<rparr>)"
    using p by (simp add: ranges_list_def get_ranges_plan exec_collect e_def)
  have r': "\<forall>r \<in> set (yields steps). 0 \<le> fst r \<and> fst r \<le> snd r \<and> snd r < bmap_blocks_cnt self"
  proof
    fix r
    assume "r \<in> set (yields steps)"
    with r have "fst r \<le> snd r \<and> snd r \<le> e \<and> - 1 < fst r" by blast
    then show "0 \<le> fst r \<and> fst r \<le> snd r \<and> snd r < bmap_blocks_cnt self"
      by (simp add: e_def)
  qed
  have c': "\<forall>x. x \<in> set (blocks_of (yields steps)) \<longleftrightarrow>
      0 \<le> x \<and> x < bmap_blocks_cnt self \<and> mapped os x"
  proof
    fix x
    have "(- 1 < x \<and> x \<le> e \<and> mapped os x) \<longleftrightarrow> (0 \<le> x \<and> x < bmap_blocks_cnt self \<and> mapped os x)"
      by (simp add: e_def) arith
    with c show "x \<in> set (blocks_of (yields steps)) \<longleftrightarrow>
      0 \<le> x \<and> x < bmap_blocks_cnt self \<and> mapped os x" by simp
  qed
  show ?thesis
    by (intro exI [where x = "yields steps"]
          exI [where x = "w\<lparr>events := events w @ step_events steps\<rparr>"] conjI l r' s c')
qed

text \<open>
  Claim C2. When the block count is at most \<open>2^32\<close> and the FIBMAP ioctl answers for every
  block of the image, \<^verbatim>\<open>_get_ranges\<close> runs to its end, and the blocks of the ranges it
  yields are exactly the blocks of the image that the ioctl reports mapped; no block
  occurs twice in them.
\<close>

theorem ranges_cover_mapped_blocks:
  assumes "bmap_blocks_cnt self \<le> 2 ^ 32"
    and "\<forall>b. 0 \<le> b \<and> b < bmap_blocks_cnt self \<longrightarrow> answered os b"
  shows "case ranges_list os self w of
           None \<Rightarrow> False
         | Some (Inl e, w') \<Rightarrow> False
         | Some (Inr rs, w') \<Rightarrow>
             set (blocks_of rs) = {b. 0 \<le> b \<and> b < bmap_blocks_cnt self \<and> mapped os b} \<and>
             distinct (blocks_of rs)"
proof -
  from ranges_list_total [OF assms, of w]
  obtain rs w' where
    l: "ranges_list os self w = Some (Inr rs, w')" and
    r: "\<forall>r \<in> set rs. 0 \<le> fst r \<and> fst r \<le> snd r \<and> snd r < bmap_blocks_cnt self" and
    s: "sorted_wrt apart rs" and
    c: "\<forall>x. x \<in> set (blocks_of rs) \<longleftrightarrow> 0 \<le> x \<and> x < bmap_blocks_cnt self \<and> mapped os x"
    by blast
  have "distinct (blocks_of rs)" using s r by (intro blocks_of_distinct) auto
  moreover have "set (blocks_of rs) = {b. 0 \<le> b \<and> b < bmap_blocks_cnt self \<and> mapped os b}"
    by (rule set_eqI) (simp add: c)
  ultimately show ?thesis by (simp add: l)
qed

lemma example_blocks_cnt: "bmap_blocks_cnt (example_creator 6) = 6"
  by (simp add: example_creator_def new_creator_def)

lemma example_ranges_list:
  "ranges_list (example_os example_pattern) (example_creator 6) (example_world bs) =
     Some (Inr [(0, 1), (3, 3), (5, 5)],
           example_world bs\<lparr>events := map (Ioctl 1) [0, 1, 2, 3, 4, 5]\<rparr>)"
  by (simp add: ranges_list_def get_ranges_def example_blocks_cnt is_mapped_def Let_def
        example_os_def example_pattern_def example_world_def collect_def example_creator_def
        new_creator_def upto_rec1)

theorem ranges_cover_mapped_blocks_witness:
  "ranges_list (example_os example_pattern) (example_creator 6) (example_world []) =
     Some (Inr [(0, 1), (3, 3), (5, 5)], example_world []\<lparr>events := map (Ioctl 1) [0, 1, 2, 3, 4, 5]\<rparr>) \<and>
   set (blocks_of [(0, 1), (3, 3), (5, 5)]) =
     {b. 0 \<le> b \<and> b < bmap_blocks_cnt (example_creator 6) \<and> mapped (example_os example_pattern) b} \<and>
   distinct (blocks_of [(0, 1), (3, 3), (5, 5)])"
proof -
  have h1: "bmap_blocks_cnt (example_creator 6) \<le> 2 ^ 32" by (simp add: example_blocks_cnt)
  have h2: "\<forall>b. 0 \<le> b \<and> b < bmap_blocks_cnt (example_creator 6) \<longrightarrow>
      answered (example_os example_pattern) b"
    by (simp add: answered_def example_os_def example_pattern_def)
  show ?thesis
    using ranges_cover_mapped_blocks [OF h1 h2, of "example_world []"]
    by (simp add: example_ranges_list)
qed

subsection \<open>Runs of the generation\<close>

lemma sha1_loop_file_read:
  "0 < chunk_size \<Longrightarrow>
     \<exists>res w'. sha1_loop (file_read os) to_read chunk_size read hash_obj w = Some (res, w') \<and>
       events w' = events w \<and>
       ((\<forall>p. read_err os p = None) \<longrightarrow> (\<exists>h. res = Inr h))"
proof (induction "nat (to_read - read)" arbitrary: chunk_size read hash_obj w rule: less_induct)
  case less
  show ?case
  proof (cases "read < to_read")
    case False
    then show ?thesis by (subst sha1_loop.simps) simp
  next
    case True
    define c where "c = (if read + chunk_size > to_read then to_read - read else chunk_size)"
    have c: "0 < c" using less.prems True by (simp add: c_def)
    obtain res w1 where rd: "file_read os w c = (res, w1)" by (cases "file_read os w c")
    have ev: "events w1 = events w"
      using rd by (auto simp: file_read_def Let_def split: option.splits)
    have ok: "(\<forall>p. read_err os p = None) \<longrightarrow> (\<exists>chunk. res = Inr chunk)"
      using rd by (auto simp: file_read_def Let_def split: option.splits)
    show ?thesis
    proof (cases res)
      case (Inl e)
      have "sha1_loop (file_read os) to_read chunk_size read hash_obj w = Some (Inl e, w1)"
        using True rd Inl by (subst sha1_loop.simps) (simp add: c_def [symmetric])
      then show ?thesis using ev ok Inl by simp
    next
      case (Inr chunk)
      have m: "nat (to_read - (read + c)) < nat (to_read - read)" using c True by simp
      from less.hyps [OF m c, of "hash_obj @ chunk" w1]
      obtain res' w' where
        l: "sha1_loop (file_read os) to_read c (read + c) (hash_obj @ chunk) w1 = Some (res', w')" and
        e: "events w' = events w1" and
        o: "(\<forall>p. read_err os p = None) \<longrightarrow> (\<exists>h. res' = Inr h)"
        by blast
      have "sha1_loop (file_read os) to_read chunk_size read hash_obj w = Some (res', w')"
        using True rd Inr l by (subst sha1_loop.simps) (simp add: c_def [symmetric])
      then show ?thesis using e ev o by simp
    qed
  qed
qed

lemma calculate_sha1_file_read:
  "\<exists>res w'. calculate_sha1 hexdigest (file_read os) block_size first_block last_block w = Some (res, w') \<and>
     events w' = events w \<and>
     ((\<forall>p. read_err os p = None) \<longrightarrow> (\<exists>sha1. res = Inr sha1))"
proof -
  obtain res w' where
    l: "sha1_loop (file_read os) ((last_block + 1) * block_size - first_block * block_size)
          (1024 * 1024) 0 [] w = Some (res, w')" and
    e: "events w' = events w" and
    o: "(\<forall>p. read_err os p = None) \<longrightarrow> (\<exists>h. res = Inr h)"
    using sha1_loop_file_read [of "1024 * 1024" os _ 0 "[]" w] by fastforce
  show ?thesis
  proof (cases res)
    case (Inl err)
    with l e o show ?thesis by (simp add: calculate_sha1_def)
  next
    case (Inr h)
    with l e show ?thesis by (simp add: calculate_sha1_def)
  qed
qed

lemma generate_body_cases:
  "\<exists>res w'. generate_body os self include_checksums (f, l) a w = Some (res, w') \<and>
     ((\<exists>e. res = Inl e \<and> events w' = events w) \<or>
      (res = Inr (a + range_length (f, l)) \<and>
       (\<exists>sha1. events w' = events w @ [Info (range_xml sha1 f l)]))) \<and>
     ((\<forall>p. read_err os p = None) \<longrightarrow> (\<exists>a'. res = Inr a'))"
proof (cases include_checksums)
  case False
  then show ?thesis
    by (auto simp: generate_body_def Let_def info_def range_length_def)
next
  case True
  from calculate_sha1_file_read [of "sha1_hexdigest os" os "bmap_block_size self" f l w]
  obtain res w' where
    c: "calculate_sha1 (sha1_hexdigest os) (file_read os) (bmap_block_size self) f l w = Some (res, w')" and
    e: "events w' = events w" and
    o: "(\<forall>p. read_err os p = None) \<longrightarrow> (\<exists>sha1. res = Inr sha1)"
    by blast
  show ?thesis
  proof (cases res)
    case (Inl err)
    have "generate_body os self include_checksums (f, l) a w = Some (Inl err, w')"
      using True c Inl by (simp add: generate_body_def Let_def)
    then show ?thesis using e o Inl by auto
  next
    case (Inr sha1)
    have "generate_body os self include_checksums (f, l) a w =
        Some (Inr (a + range_length (f, l)), info (range_xml (sha1_attr sha1) f l) w')"
      using True c Inr by (simp add: generate_body_def Let_def range_length_def)
    moreover have "events (info (range_xml (sha1_attr sha1) f l) w') =
        events w @ [Info (range_xml (sha1_attr sha1) f l)]"
      using e by (simp add: info_def)
    ultimately show ?thesis by blast
  qed
qed

lemma exec_generate_body:
  "\<exists>res w' t k. exec (generate_body os self inc) steps fin a w = Some (res, w') \<and>
      events w' = events w @ t \<and> list_all2 emits (take k steps) t \<and>
      (\<forall>a'. res = Inr a' \<longrightarrow>
         length steps \<le> k \<and> fin = None \<and> a' = a + sum_list (map range_length (yields steps))) \<and>
      ((\<forall>p. read_err os p = None) \<longrightarrow> fin = None \<longrightarrow> (\<exists>a'. res = Inr a'))"
proof (induction steps arbitrary: a w)
  case Nil
  show ?case
    by (rule exI [where x = "case fin of None \<Rightarrow> Inr a | Some e \<Rightarrow> Inl e"], rule exI [where x = w],
        rule exI [where x = "[]"], rule exI [where x = 0])
       (cases fin; simp)
next
  case (Cons s steps)
  show ?case
  proof (cases s)
    case (Ev e)
    define w1 where "w1 = w\<lparr>events := events w @ [e]\<rparr>"
    from Cons.IH [of a w1]
    obtain res w' t k where
      x: "exec (generate_body os self inc) steps fin a w1 = Some (res, w')" and
      e: "events w' = events w1 @ t" and
      l: "list_all2 emits (take k steps) t" and
      r: "\<forall>a'. res = Inr a' \<longrightarrow>
         length steps \<le> k \<and> fin = None \<and> a' = a + sum_list (map range_length (yields steps))" and
      o: "(\<forall>p. read_err os p = None) \<longrightarrow> fin = None \<longrightarrow> (\<exists>a'. res = Inr a')"
      by blast
    have x': "exec (generate_body os self inc) (s # steps) fin a w = Some (res, w')"
      using x by (simp add: Ev w1_def)
    have e': "events w' = events w @ (e # t)" using e by (simp add: w1_def)
    have l': "list_all2 emits (take (Suc k) (s # steps)) (e # t)" using l by (simp add: Ev)
    have r': "\<forall>a'. res = Inr a' \<longrightarrow>
         length (s # steps) \<le> Suc k \<and> fin = None \<and>
         a' = a + sum_list (map range_length (yields (s # steps)))"
      using r by (simp add: Ev)
    show ?thesis
      by (rule exI [where x = res], rule exI [where x = w'], rule exI [where x = "e # t"],
          rule exI [where x = "Suc k"]) (intro conjI x' e' l' r' o)
  next
    case (Yield f l)
    from generate_body_cases [of os self inc f l a w]
    obtain res1 w1 where
      b: "generate_body os self inc (f, l) a w = Some (res1, w1)" and
      c: "(\<exists>e. res1 = Inl e \<and> events w1 = events w) \<or>
          (res1 = Inr (a + range_length (f, l)) \<and>
           (\<exists>sha1. events w1 = events w @ [Info (range_xml sha1 f l)]))" and
      ok: "(\<forall>p. read_err os p = None) \<longrightarrow> (\<exists>a'. res1 = Inr a')"
      by blast
    from c show ?thesis
    proof
      assume "\<exists>e. res1 = Inl e \<and> events w1 = events w"
      then obtain err where i: "res1 = Inl err" and ev: "events w1 = events w" by blast
      have x': "exec (generate_body os self inc) (s # steps) fin a w = Some (Inl err, w1)"
        using b i by (simp add: Yield)
      have nok: "\<not> (\<forall>p. read_err os p = None)" using ok i by auto
      show ?thesis
        by (rule exI [where x = "Inl err"], rule exI [where x = w1], rule exI [where x = "[]"],
            rule exI [where x = 0]) (simp add: x' ev nok)
    next
      assume "res1 = Inr (a + range_length (f, l)) \<and>
           (\<exists>sha1. events w1 = events w @ [Info (range_xml sha1 f l)])"
      then obtain sha1 where i: "res1 = Inr (a + range_length (f, l))" and
        ev: "events w1 = events w @ [Info (range_xml sha1 f l)]" by blast
      from Cons.IH [of "a + range_length (f, l)" w1]
      obtain res w' t k where
        x: "exec (generate_body os self inc) steps fin (a + range_length (f, l)) w1 = Some (res, w')" and
        e: "events w' = events w1 @ t" and
        la: "list_all2 emits (take k steps) t" and
        r: "\<forall>a'. res = Inr a' \<longrightarrow>
           length steps \<le> k \<and> fin = None \<and>
           a' = a + range_length (f, l) + sum_list (map range_length (yields steps))" and
        o: "(\<forall>p. read_err os p = None) \<longrightarrow> fin = None \<longrightarrow> (\<exists>a'. res = Inr a')"
        by blast
      have x': "exec (generate_body os self inc) (s # steps) fin a w = Some (res, w')"
        using x b i by (simp add: Yield)
      have e': "events w' = events w @ (Info (range_xml sha1 f l) # t)" using e ev by simp
      have l': "list_all2 emits (take (Suc k) (s # steps)) (Info (range_xml sha1 f l) # t)"
        using la by (auto simp: Yield)
      have r': "\<forall>a'. res = Inr a' \<longrightarrow>
           length (s # steps) \<le> Suc k \<and> fin = None \<and>
           a' = a + sum_list (map range_length (yields (s # steps)))"
        using r by (auto simp: Yield)
      show ?thesis
        by (rule exI [where x = res], rule exI [where x = w'],
            rule exI [where x = "Info (range_xml sha1 f l) # t"], rule exI [where x = "Suc k"])
           (intro conjI x' e' l' r' o)
    qed
  qed
qed

lemma is_mapped_result_Inr:
  "is_mapped_result os path b = Inr k \<Longrightarrow> is_mapped_events b = [Ioctl 1 b]"
  by (simp add: is_mapped_result_def is_mapped_events_def split: if_splits)

lemma is_mapped_events_cases:
  "is_mapped_events b = [] \<or> is_mapped_events b = [Ioctl 1 b]"
  by (simp add: is_mapped_events_def)

lemma plan_Cons_Inr:
  assumes "is_mapped_result os path b = Inr key'"
  shows "plan os path key f l (b # bs) =
     (Ev (Ioctl 1 b) # (if key' \<noteq> key \<and> key then [Yield f l] else []) @
        fst (plan os path key' (if key' = key then f else b) b bs),
      snd (plan os path key' (if key' = key then f else b) b bs))"
  using assms is_mapped_result_Inr [OF assms]
  by (cases "key' = key") (simp_all add: split_beta)

lemma plan_queries:
  "\<exists>k. fibmap_queries (step_events (fst (plan os path key f l bs))) = take k bs \<and>
     (snd (plan os path key f l bs) = None \<longrightarrow>
        fibmap_queries (step_events (fst (plan os path key f l bs))) = bs) \<and>
     (\<forall>s \<in> set (fst (plan os path key f l bs)). is_query s \<or> (\<exists>a b. s = Yield a b))"
proof (induction bs arbitrary: key f l)
  case Nil
  show ?case by (cases key) (simp_all add: is_query_def)
next
  case (Cons b bs)
  show ?case
  proof (cases "is_mapped_result os path b")
    case (Inl err)
    from is_mapped_events_cases [of b] show ?thesis
    proof
      assume "is_mapped_events b = []"
      with Inl show ?thesis by simp
    next
      assume e: "is_mapped_events b = [Ioctl 1 b]"
      show ?thesis
        by (rule exI [where x = 1]) (simp add: Inl e is_query_def)
    qed
  next
    case (Inr key')
    define f2 where "f2 = (if key' = key then f else b)"
    let ?y = "if key' \<noteq> key \<and> key then [Yield f l] else []"
    let ?P = "plan os path key' f2 b bs"
    from Cons.IH [of key' f2 b]
    obtain k where qna:
      "fibmap_queries (step_events (fst ?P)) = take k bs \<and>
       (snd ?P = None \<longrightarrow> fibmap_queries (step_events (fst ?P)) = bs) \<and>
       (\<forall>s \<in> set (fst ?P). is_query s \<or> (\<exists>a b. s = Yield a b))" ..
    have q: "fibmap_queries (step_events (fst ?P)) = take k bs"
      and n: "snd ?P = None \<longrightarrow> fibmap_queries (step_events (fst ?P)) = bs"
      and a: "\<forall>s \<in> set (fst ?P). is_query s \<or> (\<exists>a b. s = Yield a b)"
      using qna by blast+
    have p': "plan os path key f l (b # bs) = (Ev (Ioctl 1 b) # ?y @ fst ?P, snd ?P)"
      unfolding f2_def by (rule plan_Cons_Inr [OF Inr])
    have se: "step_events (?y @ fst ?P) = step_events (fst ?P)" by simp
    have q': "fibmap_queries (step_events (Ev (Ioctl 1 b) # ?y @ fst ?P)) = take (Suc k) (b # bs)"
      unfolding step_events.simps(2) se using q by simp
    have n': "snd ?P = None \<longrightarrow> fibmap_queries (step_events (Ev (Ioctl 1 b) # ?y @ fst ?P)) = b # bs"
      unfolding step_events.simps(2) se using n by simp
    have a': "\<forall>s \<in> set (Ev (Ioctl 1 b) # ?y @ fst ?P). is_query s \<or> (\<exists>a b. s = Yield a b)"
      using a by (auto simp: is_query_def)
    show ?thesis
      unfolding p' fst_conv snd_conv
      by (rule exI [where x = "Suc k"]) (intro conjI q' n' a')
  qed
qed

lemma adj_queries: "\<forall>s \<in> set steps. is_query s \<Longrightarrow> adj e prev steps"
  by (induction steps arbitrary: prev) (auto simp: is_query_def)

lemma plan_adj:
  assumes "l \<le> e" and "key \<longrightarrow> prev = Ev (Ioctl 1 l)"
  shows "adj e prev (fst (plan os path key f l [l + 1..e]))"
  using assms
proof (induction "nat (e - l)" arbitrary: key f l prev)
  case 0
  then have "l = e" by simp
  with "0.prems"(2) show ?case by (cases key) simp_all
next
  case (Suc n)
  define b where "b = l + 1"
  have le: "l < e" using Suc.hyps(2) by simp
  have up: "[l + 1..e] = b # [b + 1..e]" using le by (simp add: b_def upto_rec1)
  have n: "n = nat (e - b)" using Suc.hyps(2) by (simp add: b_def)
  have be: "b \<le> e" using le by (simp add: b_def)
  show ?case
  proof (cases "is_mapped_result os path b")
    case (Inl err)
    have "\<forall>s \<in> set (map Ev (is_mapped_events b)). is_query s"
      using is_mapped_events_cases [of b] by (auto simp: is_query_def)
    then show ?thesis unfolding up using Inl by (simp add: adj_queries)
  next
    case (Inr key')
    define f2 where "f2 = (if key' = key then f else b)"
    define c where "c \<longleftrightarrow> key' \<noteq> key \<and> key"
    let ?P = "plan os path key' f2 b [b + 1..e]"
    have p: "plan os path key f l (b # [b + 1..e]) =
        (Ev (Ioctl 1 b) # (if c then [Yield f l] else []) @ fst ?P, snd ?P)"
      unfolding f2_def c_def by (rule plan_Cons_Inr [OF Inr])
    have a: "adj e prev' (fst ?P)" if "key' \<longrightarrow> prev' = Ev (Ioctl 1 b)" for prev'
      by (rule Suc.hyps(1) [OF n be that])
    show ?thesis
    proof (cases c)
      case True
      then have "\<not> key'" by (simp add: c_def)
      then have "adj e (Yield f l) (fst ?P)" by (intro a) simp
      then show ?thesis unfolding up p using True by (simp add: b_def)
    next
      case False
      have "adj e (Ev (Ioctl 1 b)) (fst ?P)" by (intro a) simp
      then show ?thesis unfolding up p using False by simp
    qed
  qed
qed

lemma emits_query: "is_query x \<Longrightarrow> emits x y \<Longrightarrow> \<exists>b. x = Ev (Ioctl 1 b) \<and> y = Ioctl 1 b"
  by (auto simp: is_query_def)

lemma emitted_adj:
  assumes "adj e prev steps"
    and "\<forall>s \<in> set steps. is_query s \<or> (\<exists>a b. s = Yield a b)"
    and "list_all2 emits (take k steps) t"
    and "t = pre @ Info s # post"
  shows "\<exists>sha1 f l. s = range_xml sha1 f l \<and>
           ((pre = [] \<and> (prev = Ev (Ioctl 1 (l + 1)) \<or> (prev = Ev (Ioctl 1 l) \<and> l = e))) \<or>
            (pre \<noteq> [] \<and> (last pre = Ioctl 1 (l + 1) \<or> (last pre = Ioctl 1 l \<and> l = e))))"
  using assms
proof (induction steps arbitrary: prev k t pre)
  case Nil
  then show ?case by simp
next
  case (Cons x steps)
  from Cons.prems(3,4) obtain k' where k: "k = Suc k'" by (cases k) auto
  from Cons.prems(3) k obtain y t' where
    t: "t = y # t'" and xy: "emits x y" and l: "list_all2 emits (take k' steps) t'"
    by (auto simp: list_all2_Cons1)
  have a: "adj e x steps" using Cons.prems(1) by (cases x) simp_all
  have q: "\<forall>s \<in> set steps. is_query s \<or> (\<exists>a b. s = Yield a b)" using Cons.prems(2) by simp
  have xq: "is_query x \<or> (\<exists>a b. x = Yield a b)" using Cons.prems(2) by simp
  show ?case
  proof (cases pre)
    case Nil
    then have y: "y = Info s" using Cons.prems(4) t by simp
    from xq show ?thesis
    proof
      assume "is_query x"
      from emits_query [OF this xy] y show ?thesis by auto
    next
      assume "\<exists>a b. x = Yield a b"
      then obtain f l where x: "x = Yield f l" by blast
      with xy y obtain sha1 where s: "s = range_xml sha1 f l" by auto
      from Cons.prems(1) x
      have "prev = Ev (Ioctl 1 (l + 1)) \<or> (prev = Ev (Ioctl 1 l) \<and> l = e)" by simp
      with s Nil show ?thesis by blast
    qed
  next
    case (Cons y' pre')
    then have t': "t' = pre' @ Info s # post" and yy: "y' = y" using Cons.prems(4) t by simp_all
    from Cons.IH [OF a q l t']
    obtain sha1 f l where
      s: "s = range_xml sha1 f l" and
      d: "(pre' = [] \<and> (x = Ev (Ioctl 1 (l + 1)) \<or> (x = Ev (Ioctl 1 l) \<and> l = e))) \<or>
          (pre' \<noteq> [] \<and> (last pre' = Ioctl 1 (l + 1) \<or> (last pre' = Ioctl 1 l \<and> l = e)))"
      by blast
    from d have "last pre = Ioctl 1 (l + 1) \<or> (last pre = Ioctl 1 l \<and> l = e)"
    proof
      assume p: "pre' = [] \<and> (x = Ev (Ioctl 1 (l + 1)) \<or> (x = Ev (Ioctl 1 l) \<and> l = e))"
      then have "last pre = y" using Cons yy by simp
      moreover from p xy have "y = Ioctl 1 (l + 1) \<or> (y = Ioctl 1 l \<and> l = e)" by auto
      ultimately show ?thesis by simp
    next
      assume p: "pre' \<noteq> [] \<and> (last pre' = Ioctl 1 (l + 1) \<or> (last pre' = Ioctl 1 l \<and> l = e))"
      then have "last pre = last pre'" using Cons by simp
      with p show ?thesis by simp
    qed
    with s Cons show ?thesis by blast
  qed
qed

lemma emitted_queries:
  assumes "\<forall>s \<in> set steps. is_query s \<or> (\<exists>a b. s = Yield a b)"
    and "list_all2 emits (take k steps) t"
  shows "\<exists>j. fibmap_queries t = take j (fibmap_queries (step_events steps)) \<and>
           (length steps \<le> k \<longrightarrow> fibmap_queries t = fibmap_queries (step_events steps))"
  using assms
proof (induction steps arbitrary: k t)
  case Nil
  then show ?case by simp
next
  case (Cons x steps)
  show ?case
  proof (cases k)
    case 0
    with Cons.prems(2) have "t = []" by simp
    then show ?thesis using 0 by (intro exI [where x = 0]) simp
  next
    case (Suc k')
    with Cons.prems(2) obtain y t' where
      t: "t = y # t'" and xy: "emits x y" and l: "list_all2 emits (take k' steps) t'"
      by (auto simp: list_all2_Cons1)
    have q: "\<forall>s \<in> set steps. is_query s \<or> (\<exists>a b. s = Yield a b)" using Cons.prems(1) by simp
    from Cons.IH [OF q l] obtain j where j:
      "fibmap_queries t' = take j (fibmap_queries (step_events steps)) \<and>
       (length steps \<le> k' \<longrightarrow> fibmap_queries t' = fibmap_queries (step_events steps))" ..
    have j1: "fibmap_queries t' = take j (fibmap_queries (step_events steps))" using j by blast
    have j2: "length steps \<le> k' \<Longrightarrow> fibmap_queries t' = fibmap_queries (step_events steps)"
      using j by blast
    have xq: "is_query x \<or> (\<exists>a b. x = Yield a b)" using Cons.prems(1) by simp
    then show ?thesis
    proof
      assume "is_query x"
      from emits_query [OF this xy] obtain b where x: "x = Ev (Ioctl 1 b)" and y: "y = Ioctl 1 b"
        by blast
      have a: "fibmap_queries t = take (Suc j) (fibmap_queries (step_events (x # steps)))"
        unfolding t x y using j1 by simp
      have b: "length (x # steps) \<le> k \<longrightarrow> fibmap_queries t = fibmap_queries (step_events (x # steps))"
        unfolding t x y Suc using j2 by simp
      show ?thesis by (rule exI [where x = "Suc j"]) (intro conjI a b)
    next
      assume "\<exists>a b. x = Yield a b"
      then obtain f l' where x: "x = Yield f l'" by blast
      with xy obtain sha1 where y: "y = Info (range_xml sha1 f l')" by auto
      have a: "fibmap_queries t = take j (fibmap_queries (step_events (x # steps)))"
        unfolding t x y using j1 by simp
      have b: "length (x # steps) \<le> k \<longrightarrow> fibmap_queries t = fibmap_queries (step_events (x # steps))"
        unfolding t x y Suc using j2 by simp
      show ?thesis by (rule exI [where x = j]) (intro conjI a b)
    qed
  qed
qed

lemma emitted_outputs:
  assumes "\<forall>s \<in> set steps. is_query s \<or> (\<exists>a b. s = Yield a b)"
    and "list_all2 emits steps t"
  shows "\<exists>items. outputs t = map range_element items \<and> map snd items = yields steps"
  using assms
proof (induction steps arbitrary: t)
  case Nil
  then show ?case by simp
next
  case (Cons x steps)
  from Cons.prems(2) obtain y t' where
    t: "t = y # t'" and xy: "emits x y" and l: "list_all2 emits steps t'"
    by (auto simp: list_all2_Cons1)
  have q: "\<forall>s \<in> set steps. is_query s \<or> (\<exists>a b. s = Yield a b)" using Cons.prems(1) by simp
  from Cons.IH [OF q l] obtain items where i:
    "outputs t' = map range_element items \<and> map snd items = yields steps" ..
  have xq: "is_query x \<or> (\<exists>a b. x = Yield a b)" using Cons.prems(1) by simp
  then show ?case
  proof
    assume "is_query x"
    from emits_query [OF this xy] obtain b where "x = Ev (Ioctl 1 b)" "y = Ioctl 1 b" by blast
    then show ?thesis using i t by (intro exI [where x = items]) simp
  next
    assume "\<exists>a b. x = Yield a b"
    then obtain f l' where x: "x = Yield f l'" by blast
    with xy obtain sha1 where "y = Info (range_xml sha1 f l')" by auto
    then show ?thesis using i t x
      by (intro exI [where x = "(sha1, f, l') # items"]) (simp add: range_element_def)
  qed
qed

lemma bmap_file_end_finished:
  "bmap_file_end os (finished self mc) w = (Inr (), info (footer os self mc) w)"
  by (simp add: bmap_file_end_def finished_def footer_def)

lemma generate_unfold:
  "generate os self inc w =
     (case flush_err os of
        Some err \<Rightarrow>
          Some (Inl (Error (''cannot flush image file '' @ sq @ image_path self @ sq @ '': '' @ str_of err)
                           (Some (errno err))), (bmap_file_start os self w)\<lparr>pos := 0\<rparr>)
      | None \<Rightarrow>
          (case fsync_err os of
             Some err \<Rightarrow>
               Some (Inl (Error (''cannot synchronize image file '' @ sq @ image_path self @ sq @ '': '' @
                                   strerror err @ '' '')
                                (Some (errno err))), (bmap_file_start os self w)\<lparr>pos := 0\<rparr>)
           | None \<Rightarrow>
               (case exec (generate_body os self inc) (fst (scan_plan os self)) (snd (scan_plan os self)) 0
                       ((bmap_file_start os self w)\<lparr>pos := 0\<rparr>) of
                  None \<Rightarrow> None
                | Some (Inl e, w3) \<Rightarrow> Some (Inl e, w3)
                | Some (Inr mapped_cnt, w3) \<Rightarrow>
                    if bmap_blocks_cnt self = 0 then Some (Inl ZeroDivisionError, w3)
                    else Some (Inr (finished self mapped_cnt), info (footer os self mapped_cnt) w3))))"
  by (simp add: generate_def Let_def get_ranges_plan scan_plan_def split_beta
        bmap_file_end_finished [unfolded finished_def] finished_def
      split: option.splits sum.splits prod.splits)

lemma scan_plan_steps:
  "\<forall>s \<in> set (fst (scan_plan os self)). is_query s \<or> (\<exists>a b. s = Yield a b)"
  using plan_queries [of os "image_path self" False "- 1" "- 1" "[0..bmap_blocks_cnt self - 1]"]
  unfolding scan_plan_def by blast

lemma generate_run:
  "\<exists>res w' t. generate os self inc w = Some (res, w') \<and>
     events w' = events w @ Info (bmap_file_start_xml os self) # t \<and>
     (\<forall>err. res = Inl err \<longrightarrow> (\<exists>k. list_all2 emits (take k (fst (scan_plan os self))) t)) \<and>
     (\<forall>self'. res = Inr self' \<longrightarrow>
        (\<exists>ts. t = ts @ [Info (footer os self (sum_list (map range_length (yields (fst (scan_plan os self))))))] \<and>
              list_all2 emits (fst (scan_plan os self)) ts) \<and>
        self' = finished self (sum_list (map range_length (yields (fst (scan_plan os self))))) \<and>
        snd (scan_plan os self) = None \<and> bmap_blocks_cnt self \<noteq> 0) \<and>
     (benign os \<longrightarrow> snd (scan_plan os self) = None \<longrightarrow> bmap_blocks_cnt self \<noteq> 0 \<longrightarrow>
        (\<exists>self'. res = Inr self'))"
proof -
  define w2 where "w2 = (bmap_file_start os self w)\<lparr>pos := 0\<rparr>"
  define hd where "hd = Info (bmap_file_start_xml os self)"
  have e2: "events w2 = events w @ [hd]"
    by (simp add: w2_def bmap_file_start_def info_def hd_def)
  let ?steps = "fst (scan_plan os self)"
  let ?fin = "snd (scan_plan os self)"
  let ?mc = "sum_list (map range_length (yields ?steps))"
  note g = generate_unfold [of os self inc w, folded w2_def]
  show ?thesis
    unfolding hd_def [symmetric]
  proof (cases "flush_err os")
    case (Some err)
    let ?res = "Inl (Error (''cannot flush image file '' @ sq @ image_path self @ sq @ '': '' @ str_of err)
                           (Some (errno err)))"
    have x: "generate os self inc w = Some (?res, w2)" using Some by (simp add: g)
    have l: "list_all2 emits (take 0 ?steps) []" by simp
    show "\<exists>res w' t. generate os self inc w = Some (res, w') \<and>
     events w' = events w @ hd # t \<and>
     (\<forall>err. res = Inl err \<longrightarrow> (\<exists>k. list_all2 emits (take k ?steps) t)) \<and>
     (\<forall>self'. res = Inr self' \<longrightarrow>
        (\<exists>ts. t = ts @ [Info (footer os self ?mc)] \<and> list_all2 emits ?steps ts) \<and>
        self' = finished self ?mc \<and> ?fin = None \<and> bmap_blocks_cnt self \<noteq> 0) \<and>
     (benign os \<longrightarrow> ?fin = None \<longrightarrow> bmap_blocks_cnt self \<noteq> 0 \<longrightarrow> (\<exists>self'. res = Inr self'))"
      apply (rule exI [where x = ?res], rule exI [where x = w2], rule exI [where x = "[]"])
      apply (intro conjI x)
         apply (simp add: e2)
        apply (intro allI impI exI [where x = 0] l)
       apply simp
      apply (simp add: benign_def Some)
      done
  next
    case None
    note fl = None
    show "\<exists>res w' t. generate os self inc w = Some (res, w') \<and>
     events w' = events w @ hd # t \<and>
     (\<forall>err. res = Inl err \<longrightarrow> (\<exists>k. list_all2 emits (take k ?steps) t)) \<and>
     (\<forall>self'. res = Inr self' \<longrightarrow>
        (\<exists>ts. t = ts @ [Info (footer os self ?mc)] \<and> list_all2 emits ?steps ts) \<and>
        self' = finished self ?mc \<and> ?fin = None \<and> bmap_blocks_cnt self \<noteq> 0) \<and>
     (benign os \<longrightarrow> ?fin = None \<longrightarrow> bmap_blocks_cnt self \<noteq> 0 \<longrightarrow> (\<exists>self'. res = Inr self'))"
    proof (cases "fsync_err os")
      case (Some err)
      let ?res = "Inl (Error (''cannot synchronize image file '' @ sq @ image_path self @ sq @ '': '' @
                                   strerror err @ '' '') (Some (errno err)))"
      have x: "generate os self inc w = Some (?res, w2)" using Some fl by (simp add: g)
      have l: "list_all2 emits (take 0 ?steps) []" by simp
      show ?thesis
        apply (rule exI [where x = ?res], rule exI [where x = w2], rule exI [where x = "[]"])
        apply (intro conjI x)
           apply (simp add: e2)
          apply (intro allI impI exI [where x = 0] l)
         apply simp
        apply (simp add: benign_def Some)
        done
    next
      case None
      from exec_generate_body [of os self inc ?steps ?fin 0 w2]
      obtain res1 where "\<exists>w3 t k.
        exec (generate_body os self inc) ?steps ?fin 0 w2 = Some (res1, w3) \<and>
        events w3 = events w2 @ t \<and> list_all2 emits (take k ?steps) t \<and>
        (\<forall>a'. res1 = Inr a' \<longrightarrow> length ?steps \<le> k \<and> ?fin = None \<and> a' = 0 + ?mc) \<and>
        ((\<forall>p. read_err os p = None) \<longrightarrow> ?fin = None \<longrightarrow> (\<exists>a'. res1 = Inr a'))" ..
      then obtain w3 where "\<exists>t k.
        exec (generate_body os self inc) ?steps ?fin 0 w2 = Some (res1, w3) \<and>
        events w3 = events w2 @ t \<and> list_all2 emits (take k ?steps) t \<and>
        (\<forall>a'. res1 = Inr a' \<longrightarrow> length ?steps \<le> k \<and> ?fin = None \<and> a' = 0 + ?mc) \<and>
        ((\<forall>p. read_err os p = None) \<longrightarrow> ?fin = None \<longrightarrow> (\<exists>a'. res1 = Inr a'))" ..
      then obtain t where "\<exists>k.
        exec (generate_body os self inc) ?steps ?fin 0 w2 = Some (res1, w3) \<and>
        events w3 = events w2 @ t \<and> list_all2 emits (take k ?steps) t \<and>
        (\<forall>a'. res1 = Inr a' \<longrightarrow> length ?steps \<le> k \<and> ?fin = None \<and> a' = 0 + ?mc) \<and>
        ((\<forall>p. read_err os p = None) \<longrightarrow> ?fin = None \<longrightarrow> (\<exists>a'. res1 = Inr a'))" ..
      then obtain k where all:
        "exec (generate_body os self inc) ?steps ?fin 0 w2 = Some (res1, w3) \<and>
        events w3 = events w2 @ t \<and> list_all2 emits (take k ?steps) t \<and>
        (\<forall>a'. res1 = Inr a' \<longrightarrow> length ?steps \<le> k \<and> ?fin = None \<and> a' = 0 + ?mc) \<and>
        ((\<forall>p. read_err os p = None) \<longrightarrow> ?fin = None \<longrightarrow> (\<exists>a'. res1 = Inr a'))" ..
      have x: "exec (generate_body os self inc) ?steps ?fin 0 w2 = Some (res1, w3)"
        using all by (rule conjunct1)
      have e3: "events w3 = events w2 @ t"
        using all by (elim conjE)
      have l: "list_all2 emits (take k ?steps) t"
        using all by (elim conjE)
      have r: "\<forall>a'. res1 = Inr a' \<longrightarrow> length ?steps \<le> k \<and> ?fin = None \<and> a' = 0 + ?mc"
        using all by (elim conjE)
      have o: "(\<forall>p. read_err os p = None) \<longrightarrow> ?fin = None \<longrightarrow> (\<exists>a'. res1 = Inr a')"
        using all by (elim conjE)
      have e3': "events w3 = events w @ hd # t" using e3 e2 by simp
      show ?thesis
      proof (cases res1)
        case (Inl err)
        have y: "generate os self inc w = Some (Inl err, w3)"
          using fl None x Inl by (simp add: g)
        have no: "\<not> (benign os \<and> ?fin = None)" using o Inl by (auto simp: benign_def)
        show ?thesis
          apply (rule exI [where x = "Inl err"], rule exI [where x = w3], rule exI [where x = t])
          apply (intro conjI y e3')
            apply (intro allI impI exI [where x = k] l)
           apply simp
          using no apply blast
          done
      next
        case (Inr mc)
        from r Inr have k: "length ?steps \<le> k" and f: "?fin = None" and m: "mc = ?mc" by simp_all
        have l': "list_all2 emits ?steps t" using l k by simp
        show ?thesis
        proof (cases "bmap_blocks_cnt self = 0")
          case True
          have y: "generate os self inc w = Some (Inl ZeroDivisionError, w3)"
            using fl None x Inr True by (simp add: g)
          show ?thesis
            apply (rule exI [where x = "Inl ZeroDivisionError"], rule exI [where x = w3],
                rule exI [where x = t])
            apply (intro conjI y e3')
              apply (intro allI impI exI [where x = k] l)
             apply simp
            using True apply blast
            done
        next
          case False
          have y: "generate os self inc w =
              Some (Inr (finished self ?mc), info (footer os self ?mc) w3)"
            using fl None x Inr False m by (simp add: g)
          have e4: "events (info (footer os self ?mc) w3) =
              events w @ hd # (t @ [Info (footer os self ?mc)])"
            using e3' by (simp add: info_def)
          show ?thesis
            apply (rule exI [where x = "Inr (finished self ?mc)"],
                rule exI [where x = "info (footer os self ?mc) w3"],
                rule exI [where x = "t @ [Info (footer os self ?mc)]"])
            apply (intro conjI y e4)
              apply simp
             apply (intro allI impI conjI exI [where x = t] refl l' f False)
             apply simp
            apply blast
            done
        qed
      qed
    qed
  qed
qed

subsection \<open>The order of the events of a generation\<close>

lemma scan_plan_adj: "adj (bmap_blocks_cnt self - 1) (Yield 0 0) (fst (scan_plan os self))"
proof (cases "0 \<le> bmap_blocks_cnt self")
  case True
  have "adj (bmap_blocks_cnt self - 1) (Yield 0 0)
      (fst (plan os (image_path self) False 0 (- 1) [- 1 + 1..bmap_blocks_cnt self - 1]))"
    by (rule plan_adj) (use True in simp_all)
  then show ?thesis
    unfolding scan_plan_def
    using plan_unmapped_group [of os "image_path self" 0 "- 1" "[0..bmap_blocks_cnt self - 1]" "- 1" "- 1"]
    by simp
next
  case False
  then have "[0..bmap_blocks_cnt self - 1] = []" by simp
  then show ?thesis by (simp add: scan_plan_def)
qed

lemma scan_plan_queries:
  "\<exists>k. fibmap_queries (step_events (fst (scan_plan os self))) = take k [0..bmap_blocks_cnt self - 1] \<and>
     (snd (scan_plan os self) = None \<longrightarrow>
        fibmap_queries (step_events (fst (scan_plan os self))) = [0..bmap_blocks_cnt self - 1])"
proof -
  from plan_queries [of os "image_path self" False "- 1" "- 1" "[0..bmap_blocks_cnt self - 1]"]
  obtain k where k:
    "fibmap_queries (step_events (fst (scan_plan os self))) = take k [0..bmap_blocks_cnt self - 1] \<and>
     (snd (scan_plan os self) = None \<longrightarrow>
        fibmap_queries (step_events (fst (scan_plan os self))) = [0..bmap_blocks_cnt self - 1]) \<and>
     (\<forall>s \<in> set (fst (scan_plan os self)). is_query s \<or> (\<exists>a b. s = Yield a b))"
    unfolding scan_plan_def ..
  show ?thesis by (rule exI [where x = k]) (use k in blast)
qed

lemma emitted_after_discovery:
  assumes "list_all2 emits (take k (fst (scan_plan os self))) t"
    and "t = pre @ Info s # post"
  shows "after_discovery (bmap_blocks_cnt self) pre s"
proof -
  from emitted_adj [OF scan_plan_adj scan_plan_steps assms]
  obtain sha1 f l where
    s: "s = range_xml sha1 f l" and
    d: "(pre = [] \<and> (Yield 0 0 = Ev (Ioctl 1 (l + 1)) \<or>
           (Yield 0 0 = Ev (Ioctl 1 l) \<and> l = bmap_blocks_cnt self - 1))) \<or>
        (pre \<noteq> [] \<and> (last pre = Ioctl 1 (l + 1) \<or>
           (last pre = Ioctl 1 l \<and> l = bmap_blocks_cnt self - 1)))"
    by blast
  from d have "pre \<noteq> [] \<and> (last pre = Ioctl 1 (l + 1) \<or>
           (last pre = Ioctl 1 l \<and> l = bmap_blocks_cnt self - 1))" by simp
  with s show ?thesis unfolding after_discovery_def by blast
qed

lemma emitted_scan_queries:
  assumes "list_all2 emits (take k (fst (scan_plan os self))) t"
  shows "\<exists>j. fibmap_queries t = take j [0..bmap_blocks_cnt self - 1]"
proof -
  from emitted_queries [OF scan_plan_steps assms] obtain j where
    j: "fibmap_queries t = take j (fibmap_queries (step_events (fst (scan_plan os self))))"
    by blast
  from scan_plan_queries [of os self] obtain i where
    i: "fibmap_queries (step_events (fst (scan_plan os self))) = take i [0..bmap_blocks_cnt self - 1]"
    by blast
  show ?thesis by (rule exI [where x = "min j i"]) (simp add: j i)
qed

lemma emitted_all_queries:
  assumes "list_all2 emits (fst (scan_plan os self)) t" and "snd (scan_plan os self) = None"
  shows "fibmap_queries t = [0..bmap_blocks_cnt self - 1]"
proof -
  have "list_all2 emits (take (length (fst (scan_plan os self))) (fst (scan_plan os self))) t"
    using assms(1) by simp
  from emitted_queries [OF scan_plan_steps this]
  have "fibmap_queries t = fibmap_queries (step_events (fst (scan_plan os self)))" by auto
  with scan_plan_queries [of os self] assms(2) show ?thesis by auto
qed

lemma snoc_split:
  assumes "ts @ [x] = pre @ y # post"
  shows "(post = [] \<and> pre = ts \<and> y = x) \<or> (\<exists>post'. post = post' @ [x] \<and> ts = pre @ y # post')"
proof (cases post rule: rev_cases)
  case Nil
  with assms show ?thesis by simp
next
  case (snoc post' z)
  with assms have "ts @ [x] = (pre @ y # post') @ [z]" by simp
  then have "ts = pre @ y # post'" and "x = z" by (simp_all only: append1_eq_conv)
  with snoc show ?thesis by simp
qed

lemma generate_success:
  assumes "generate os self inc w = Some (Inr self', w')"
  shows "\<exists>ts. events w' = events w @ Info (bmap_file_start_xml os self) #
               ts @ [Info (footer os self (sum_list (map range_length (yields (fst (scan_plan os self))))))] \<and>
           list_all2 emits (fst (scan_plan os self)) ts \<and>
           self' = finished self (sum_list (map range_length (yields (fst (scan_plan os self))))) \<and>
           snd (scan_plan os self) = None \<and> bmap_blocks_cnt self \<noteq> 0"
proof -
  let ?steps = "fst (scan_plan os self)"
  let ?mc = "sum_list (map range_length (yields ?steps))"
  from generate_run [of os self inc w]
  obtain res where "\<exists>w'' t. generate os self inc w = Some (res, w'') \<and>
     events w'' = events w @ Info (bmap_file_start_xml os self) # t \<and>
     (\<forall>err. res = Inl err \<longrightarrow> (\<exists>k. list_all2 emits (take k ?steps) t)) \<and>
     (\<forall>self'. res = Inr self' \<longrightarrow>
        (\<exists>ts. t = ts @ [Info (footer os self ?mc)] \<and> list_all2 emits ?steps ts) \<and>
        self' = finished self ?mc \<and> snd (scan_plan os self) = None \<and> bmap_blocks_cnt self \<noteq> 0) \<and>
     (benign os \<longrightarrow> snd (scan_plan os self) = None \<longrightarrow> bmap_blocks_cnt self \<noteq> 0 \<longrightarrow>
        (\<exists>self'. res = Inr self'))" ..
  then obtain w'' where "\<exists>t. generate os self inc w = Some (res, w'') \<and>
     events w'' = events w @ Info (bmap_file_start_xml os self) # t \<and>
     (\<forall>err. res = Inl err \<longrightarrow> (\<exists>k. list_all2 emits (take k ?steps) t)) \<and>
     (\<forall>self'. res = Inr self' \<longrightarrow>
        (\<exists>ts. t = ts @ [Info (footer os self ?mc)] \<and> list_all2 emits ?steps ts) \<and>
        self' = finished self ?mc \<and> snd (scan_plan os self) = None \<and> bmap_blocks_cnt self \<noteq> 0) \<and>
     (benign os \<longrightarrow> snd (scan_plan os self) = None \<longrightarrow> bmap_blocks_cnt self \<noteq> 0 \<longrightarrow>
        (\<exists>self'. res = Inr self'))" ..
  then obtain t where all: "generate os self inc w = Some (res, w'') \<and>
     events w'' = events w @ Info (bmap_file_start_xml os self) # t \<and>
     (\<forall>err. res = Inl err \<longrightarrow> (\<exists>k. list_all2 emits (take k ?steps) t)) \<and>
     (\<forall>self'. res = Inr self' \<longrightarrow>
        (\<exists>ts. t = ts @ [Info (footer os self ?mc)] \<and> list_all2 emits ?steps ts) \<and>
        self' = finished self ?mc \<and> snd (scan_plan os self) = None \<and> bmap_blocks_cnt self \<noteq> 0) \<and>
     (benign os \<longrightarrow> snd (scan_plan os self) = None \<longrightarrow> bmap_blocks_cnt self \<noteq> 0 \<longrightarrow>
        (\<exists>self'. res = Inr self'))" ..
  have g: "generate os self inc w = Some (res, w'')" using all by (rule conjunct1)
  have e: "events w'' = events w @ Info (bmap_file_start_xml os self) # t" using all by (elim conjE)
  have ok: "\<forall>self'. res = Inr self' \<longrightarrow>
        (\<exists>ts. t = ts @ [Info (footer os self ?mc)] \<and> list_all2 emits ?steps ts) \<and>
        self' = finished self ?mc \<and> snd (scan_plan os self) = None \<and> bmap_blocks_cnt self \<noteq> 0"
    using all by (elim conjE)
  from g assms have r: "res = Inr self'" and w: "w'' = w'" by simp_all
  from ok r obtain ts where
    t: "t = ts @ [Info (footer os self ?mc)]" and l: "list_all2 emits ?steps ts" and
    s: "self' = finished self ?mc" and f: "snd (scan_plan os self) = None" and
    n: "bmap_blocks_cnt self \<noteq> 0"
    by blast
  have e': "events w' = events w @ Info (bmap_file_start_xml os self) # ts @ [Info (footer os self ?mc)]"
    using e t w by simp
  show ?thesis by (rule exI [where x = ts]) (intro conjI e' l s f n)
qed

lemma generate_benign:
  assumes "benign os" and "snd (scan_plan os self) = None" and "bmap_blocks_cnt self \<noteq> 0"
  shows "\<exists>self' w'. generate os self inc w = Some (Inr self', w')"
proof -
  let ?steps = "fst (scan_plan os self)"
  let ?mc = "sum_list (map range_length (yields ?steps))"
  from generate_run [of os self inc w]
  obtain res where "\<exists>w'' t. generate os self inc w = Some (res, w'') \<and>
     events w'' = events w @ Info (bmap_file_start_xml os self) # t \<and>
     (\<forall>err. res = Inl err \<longrightarrow> (\<exists>k. list_all2 emits (take k ?steps) t)) \<and>
     (\<forall>self'. res = Inr self' \<longrightarrow>
        (\<exists>ts. t = ts @ [Info (footer os self ?mc)] \<and> list_all2 emits ?steps ts) \<and>
        self' = finished self ?mc \<and> snd (scan_plan os self) = None \<and> bmap_blocks_cnt self \<noteq> 0) \<and>
     (benign os \<longrightarrow> snd (scan_plan os self) = None \<longrightarrow> bmap_blocks_cnt self \<noteq> 0 \<longrightarrow>
        (\<exists>self'. res = Inr self'))" ..
  then obtain w'' where "\<exists>t. generate os self inc w = Some (res, w'') \<and>
     events w'' = events w @ Info (bmap_file_start_xml os self) # t \<and>
     (\<forall>err. res = Inl err \<longrightarrow> (\<exists>k. list_all2 emits (take k ?steps) t)) \<and>
     (\<forall>self'. res = Inr self' \<longrightarrow>
        (\<exists>ts. t = ts @ [Info (footer os self ?mc)] \<and> list_all2 emits ?steps ts) \<and>
        self' = finished self ?mc \<and> snd (scan_plan os self) = None \<and> bmap_blocks_cnt self \<noteq> 0) \<and>
     (benign os \<longrightarrow> snd (scan_plan os self) = None \<longrightarrow> bmap_blocks_cnt self \<noteq> 0 \<longrightarrow>
        (\<exists>self'. res = Inr self'))" ..
  then obtain t where all: "generate os self inc w = Some (res, w'') \<and>
     events w'' = events w @ Info (bmap_file_start_xml os self) # t \<and>
     (\<forall>err. res = Inl err \<longrightarrow> (\<exists>k. list_all2 emits (take k ?steps) t)) \<and>
     (\<forall>self'. res = Inr self' \<longrightarrow>
        (\<exists>ts. t = ts @ [Info (footer os self ?mc)] \<and> list_all2 emits ?steps ts) \<and>
        self' = finished self ?mc \<and> snd (scan_plan os self) = None \<and> bmap_blocks_cnt self \<noteq> 0) \<and>
     (benign os \<longrightarrow> snd (scan_plan os self) = None \<longrightarrow> bmap_blocks_cnt self \<noteq> 0 \<longrightarrow>
        (\<exists>self'. res = Inr self'))" ..
  have g: "generate os self inc w = Some (res, w'')" using all by (rule conjunct1)
  have b: "benign os \<longrightarrow> snd (scan_plan os self) = None \<longrightarrow> bmap_blocks_cnt self \<noteq> 0 \<longrightarrow>
        (\<exists>self'. res = Inr self')"
    using all by (elim conjE)
  from b assms obtain self' where "res = Inr self'" by blast
  with g show ?thesis by blast
qed

subsection \<open>The ranges of every scan\<close>

lemma yields_append: "yields (xs @ ys) = yields xs @ yields ys"
  by (induction xs rule: yields.induct) simp_all

lemma yields_map_Ev: "yields (map Ev evs) = []"
  by (induction evs) simp_all

lemma plan_Cons_Inl:
  "is_mapped_result os path b = Inl e \<Longrightarrow>
     plan os path key f l (b # bs) = (map Ev (is_mapped_events b), Some e)"
  by simp

lemma plan_yields:
  assumes "f \<le> l" and "l \<le> e"
  shows "(\<forall>r \<in> set (yields (fst (plan os path key f l [l + 1..e]))).
            fst r \<le> snd r \<and> snd r \<le> e \<and> (if key then f \<le> fst r else l < fst r)) \<and>
         sorted_wrt apart (yields (fst (plan os path key f l [l + 1..e])))"
  using assms
proof (induction "nat (e - l)" arbitrary: key f l)
  case 0
  then have "l = e" by simp
  then show ?case using "0.prems"(1) by (cases key) auto
next
  case (Suc n)
  define b where "b = l + 1"
  have le: "l < e" using Suc.hyps(2) by simp
  have up: "[l + 1..e] = b # [b + 1..e]" using le by (simp add: b_def upto_rec1)
  have n: "n = nat (e - b)" using Suc.hyps(2) by (simp add: b_def)
  have be: "b \<le> e" using le by (simp add: b_def)
  show ?case
  proof (cases "is_mapped_result os path b")
    case (Inl err)
    show ?thesis unfolding up plan_Cons_Inl [OF Inl] by (simp add: yields_map_Ev)
  next
    case (Inr key')
    define f' where "f' = (if key' = key then f else b)"
    define ys where "ys = yields (fst (plan os path key' f' b [b + 1..e]))"
    have fb: "f' \<le> b" using Suc.prems(1) by (simp add: f'_def b_def)
    from Suc.hyps(1) [OF n fb be, of key']
    have r: "\<forall>r \<in> set ys. fst r \<le> snd r \<and> snd r \<le> e \<and> (if key' then f' \<le> fst r else b < fst r)"
      and s: "sorted_wrt apart ys"
      unfolding ys_def by blast+
    have y: "yields (fst (plan os path key f l [l + 1..e])) =
        (if key' \<noteq> key \<and> key then [(f, l)] else []) @ ys"
      unfolding up plan_Cons_Inr [OF Inr] ys_def f'_def by (simp add: yields_append)
    show ?thesis
    proof (cases "key' \<noteq> key \<and> key")
      case True
      then have k: "key" "\<not> key'" by auto
      have y': "yields (fst (plan os path key f l [l + 1..e])) = (f, l) # ys"
        unfolding y using True by simp
      have a: "\<forall>r \<in> set ys. apart (f, l) r"
      proof
        fix r assume "r \<in> set ys"
        with r k have "b < fst r" by auto
        then show "apart (f, l) r" by (simp add: apart_def b_def)
      qed
      have 1: "\<forall>r \<in> set ((f, l) # ys).
          fst r \<le> snd r \<and> snd r \<le> e \<and> (if key then f \<le> fst r else l < fst r)"
      proof
        fix r assume m: "r \<in> set ((f, l) # ys)"
        show "fst r \<le> snd r \<and> snd r \<le> e \<and> (if key then f \<le> fst r else l < fst r)"
        proof (cases "r = (f, l)")
          case True
          then show ?thesis using Suc.prems k by simp
        next
          case False
          with m have "r \<in> set ys" by simp
          with r k have "fst r \<le> snd r \<and> snd r \<le> e \<and> b < fst r" by auto
          then show ?thesis using k Suc.prems(1) by (simp add: b_def)
        qed
      qed
      have 2: "sorted_wrt apart ((f, l) # ys)" using a s by simp
      show ?thesis unfolding y' by (intro conjI 1 2)
    next
      case False
      have y': "yields (fst (plan os path key f l [l + 1..e])) = ys"
        unfolding y using False by simp
      have 1: "\<forall>r \<in> set ys.
          fst r \<le> snd r \<and> snd r \<le> e \<and> (if key then f \<le> fst r else l < fst r)"
      proof
        fix r assume m: "r \<in> set ys"
        with r have q: "fst r \<le> snd r" "snd r \<le> e" "if key' then f' \<le> fst r else b < fst r"
          by auto
        show "fst r \<le> snd r \<and> snd r \<le> e \<and> (if key then f \<le> fst r else l < fst r)"
        proof (cases "key' = key")
          case True
          then show ?thesis using q by (cases key) (simp_all add: f'_def b_def)
        next
          case k: False
          with False have "\<not> key" "key'" by auto
          then show ?thesis using q by (simp add: f'_def b_def)
        qed
      qed
      show ?thesis unfolding y' by (intro conjI 1 s)
    qed
  qed
qed

lemma scan_plan_yields:
  "(\<forall>r \<in> set (yields (fst (scan_plan os self))).
      0 \<le> fst r \<and> fst r \<le> snd r \<and> snd r < bmap_blocks_cnt self) \<and>
   sorted_wrt apart (yields (fst (scan_plan os self)))"
proof (cases "0 \<le> bmap_blocks_cnt self")
  case False
  then have "[0..bmap_blocks_cnt self - 1] = []" by simp
  then show ?thesis by (simp add: scan_plan_def)
next
  case True
  define e where "e = bmap_blocks_cnt self - 1"
  have le: "- 1 \<le> e" using True by (simp add: e_def)
  from plan_yields [OF order_refl le, of os "image_path self" False]
  have r: "\<forall>r \<in> set (yields (fst (scan_plan os self))). fst r \<le> snd r \<and> snd r \<le> e \<and> - 1 < fst r"
    and s: "sorted_wrt apart (yields (fst (scan_plan os self)))"
    unfolding scan_plan_def e_def by simp_all
  have r': "\<forall>r \<in> set (yields (fst (scan_plan os self))).
      0 \<le> fst r \<and> fst r \<le> snd r \<and> snd r < bmap_blocks_cnt self"
  proof
    fix r assume "r \<in> set (yields (fst (scan_plan os self)))"
    with r have "fst r \<le> snd r \<and> snd r \<le> e \<and> - 1 < fst r" by blast
    then show "0 \<le> fst r \<and> fst r \<le> snd r \<and> snd r < bmap_blocks_cnt self"
      by (simp add: e_def)
  qed
  show ?thesis by (intro conjI r' s)
qed

lemma get_ranges_scan_plan:
  "get_ranges os self yield a w = exec yield (fst (scan_plan os self)) (snd (scan_plan os self)) a w"
  by (simp add: get_ranges_plan scan_plan_def split_beta)

lemma ranges_list_scan_plan:
  "ranges_list os self w =
     Some ((case snd (scan_plan os self) of
              None \<Rightarrow> Inr (yields (fst (scan_plan os self)))
            | Some e \<Rightarrow> Inl e),
           w\<lparr>events := events w @ step_events (fst (scan_plan os self))\<rparr>)"
  by (cases "snd (scan_plan os self)")
     (simp_all add: ranges_list_def get_ranges_scan_plan exec_collect)

lemma scan_plan_total:
  assumes "bmap_blocks_cnt self \<le> 2 ^ 32"
    and "\<forall>b. 0 \<le> b \<and> b < bmap_blocks_cnt self \<longrightarrow> answered os b"
  shows "snd (scan_plan os self) = None"
proof -
  from ranges_list_total [OF assms, of w] obtain rs w' where
    "ranges_list os self w = Some (Inr rs, w')" by blast
  then show ?thesis
    unfolding ranges_list_scan_plan by (cases "snd (scan_plan os self)") simp_all
qed

text \<open>
  Claim C4. For every instance and every FIBMAP ioctl, \<^verbatim>\<open>_get_ranges\<close> runs the steps of
  \<open>scan_plan\<close>, whatever the body of the loop that consumes it: it yields the ranges
  \<open>yields (fst (scan_plan os self))\<close>, in this order, up to the end of the scan or to the
  call of \<^verbatim>\<open>_is_mapped\<close> that fails. Every one of these ranges has
  \<open>0 \<le> first \<le> last < blocks_cnt\<close> and starts at least two blocks after the end of each
  range yielded before it: the ranges are strictly increasing, do not overlap and are not
  adjacent. \<^verbatim>\<open>list(self._get_ranges())\<close> is this list when no call fails, and no call fails
  when the block count is at most \<open>2^32\<close> and the ioctl answers for every block.
\<close>

theorem ranges_increasing_and_apart:
  "get_ranges os self yield a w =
     exec yield (fst (scan_plan os self)) (snd (scan_plan os self)) a w \<and>
   sorted_wrt (\<lambda>(first1, last1) (first2, last2). last1 + 2 \<le> first2)
     (yields (fst (scan_plan os self))) \<and>
   (\<forall>(first_block, last_block) \<in> set (yields (fst (scan_plan os self))).
      0 \<le> first_block \<and> first_block \<le> last_block \<and> last_block < bmap_blocks_cnt self) \<and>
   (case ranges_list os self w of
      None \<Rightarrow> False
    | Some (Inl e, w') \<Rightarrow> snd (scan_plan os self) = Some e
    | Some (Inr rs, w') \<Rightarrow> snd (scan_plan os self) = None \<and> rs = yields (fst (scan_plan os self))) \<and>
   (bmap_blocks_cnt self \<le> 2 ^ 32 \<and>
    (\<forall>b. 0 \<le> b \<and> b < bmap_blocks_cnt self \<longrightarrow> answered os b) \<longrightarrow>
      snd (scan_plan os self) = None)"
proof -
  have ap: "apart = (\<lambda>(first1, last1) (first2, last2). last1 + 2 \<le> first2)"
    by (simp add: fun_eq_iff apart_def)
  have 1: "sorted_wrt (\<lambda>(first1, last1) (first2, last2). last1 + 2 \<le> first2)
     (yields (fst (scan_plan os self)))"
    using scan_plan_yields [of os self] unfolding ap by (rule conjunct2)
  have 2: "\<forall>(first_block, last_block) \<in> set (yields (fst (scan_plan os self))).
      0 \<le> first_block \<and> first_block \<le> last_block \<and> last_block < bmap_blocks_cnt self"
    using scan_plan_yields [of os self, THEN conjunct1] by (simp add: split_beta)
  have 3: "case ranges_list os self w of
      None \<Rightarrow> False
    | Some (Inl e, w') \<Rightarrow> snd (scan_plan os self) = Some e
    | Some (Inr rs, w') \<Rightarrow> snd (scan_plan os self) = None \<and> rs = yields (fst (scan_plan os self))"
    unfolding ranges_list_scan_plan by (cases "snd (scan_plan os self)") simp_all
  have 4: "bmap_blocks_cnt self \<le> 2 ^ 32 \<and>
    (\<forall>b. 0 \<le> b \<and> b < bmap_blocks_cnt self \<longrightarrow> answered os b) \<longrightarrow>
      snd (scan_plan os self) = None"
    using scan_plan_total [of self os] by blast
  show ?thesis by (intro conjI get_ranges_scan_plan 1 2 3 4)
qed


theorem ranges_increasing_and_apart_witness:
  "ranges_list (example_os example_pattern) (example_creator 6) (example_world []) =
     Some (Inr [(0, 1), (3, 3), (5, 5)], example_world []\<lparr>events := map (Ioctl 1) [0, 1, 2, 3, 4, 5]\<rparr>) \<and>
   yields (fst (scan_plan (example_os example_pattern) (example_creator 6))) = [(0, 1), (3, 3), (5, 5)] \<and>
   sorted_wrt (\<lambda>(first1, last1) (first2, last2). last1 + 2 \<le> first2) [(0, 1), (3, 3), (5, 5 :: int)] \<and>
   list_all (\<lambda>(first_block, last_block).
       0 \<le> first_block \<and> first_block \<le> last_block \<and> last_block < bmap_blocks_cnt (example_creator 6))
     [(0, 1), (3, 3), (5, 5)]"
proof -
  let ?os = "example_os example_pattern"
  let ?self = "example_creator 6"
  note t = ranges_increasing_and_apart [of ?os ?self collect "[]" "example_world []"]
  have c: "case ranges_list ?os ?self (example_world []) of
      None \<Rightarrow> False
    | Some (Inl e, w') \<Rightarrow> snd (scan_plan ?os ?self) = Some e
    | Some (Inr rs, w') \<Rightarrow> snd (scan_plan ?os ?self) = None \<and> rs = yields (fst (scan_plan ?os ?self))"
    using t by (elim conjE)
  have y: "yields (fst (scan_plan ?os ?self)) = [(0, 1), (3, 3), (5, 5)]"
    using c unfolding example_ranges_list by simp
  have s: "sorted_wrt (\<lambda>(first1, last1) (first2, last2). last1 + 2 \<le> first2)
     (yields (fst (scan_plan ?os ?self)))"
    using t by (elim conjE)
  have b: "\<forall>(first_block, last_block) \<in> set (yields (fst (scan_plan ?os ?self))).
      0 \<le> first_block \<and> first_block \<le> last_block \<and> last_block < bmap_blocks_cnt ?self"
    using t by (elim conjE)
  have s': "sorted_wrt (\<lambda>(first1, last1) (first2, last2). last1 + 2 \<le> first2) [(0, 1), (3, 3), (5, 5 :: int)]"
    using s unfolding y .
  have b': "list_all (\<lambda>(first_block, last_block).
       0 \<le> first_block \<and> first_block \<le> last_block \<and> last_block < bmap_blocks_cnt ?self)
     [(0, 1), (3, 3), (5, 5)]"
    using b unfolding y by (simp add: list_all_iff)
  show ?thesis by (intro conjI example_ranges_list y s' b')
qed

subsection \<open>Beyond \<open>2^32\<close> blocks\<close>

lemma is_mapped_result_pack:
  "2 ^ 32 \<le> b \<Longrightarrow> is_mapped_result os path b = Inl StructError \<and> is_mapped_events b = []"
  by (simp add: is_mapped_result_def is_mapped_events_def)

lemma plan_mapped_until_pack:
  assumes "\<forall>b. l < b \<and> b < 2 ^ 32 \<longrightarrow> answered os b \<and> mapped os b"
    and "- 1 \<le> l" and "l < 2 ^ 32" and "2 ^ 32 \<le> e"
  shows "yields (fst (plan os path True f l [l + 1..e])) = [] \<and>
         snd (plan os path True f l [l + 1..e]) = Some StructError"
  using assms
proof (induction "nat (2 ^ 32 - 1 - l)" arbitrary: l f)
  case 0
  define b where "b = l + 1"
  have b: "b = 2 ^ 32" using "0.hyps" "0.prems"(3) by (simp add: b_def)
  have le: "l < e" using "0.prems"(3,4) by simp
  have up: "[l + 1..e] = b # [b + 1..e]" using le by (simp add: b_def upto_rec1)
  have q: "is_mapped_result os path b = Inl StructError" "is_mapped_events b = []"
    using is_mapped_result_pack [of b os path] b by simp_all
  show ?case unfolding up plan_Cons_Inl [OF q(1)] q(2) by simp
next
  case (Suc n)
  define b where "b = l + 1"
  have bl: "b < 2 ^ 32" using Suc.hyps(2) by (simp add: b_def)
  have b0: "0 \<le> b" using Suc.prems(2) by (simp add: b_def)
  have le: "l < e" using Suc.prems(3,4) by simp
  have up: "[l + 1..e] = b # [b + 1..e]" using le by (simp add: b_def upto_rec1)
  have am: "answered os b" "mapped os b"
    using Suc.prems(1) [rule_format, of b] bl by (simp_all add: b_def)
  have q: "is_mapped_result os path b = Inr True"
    using is_mapped_result_answered [OF b0 bl am(1), of path] am(2) by simp
  have n: "n = nat (2 ^ 32 - 1 - b)" using Suc.hyps(2) by (simp add: b_def)
  have tot: "\<forall>c. b < c \<and> c < 2 ^ 32 \<longrightarrow> answered os c \<and> mapped os c"
    using Suc.prems(1) by (simp add: b_def)
  have b1: "- 1 \<le> b" using b0 by simp
  from Suc.hyps(1) [OF n tot b1 bl Suc.prems(4), of f]
  have ih: "yields (fst (plan os path True f b [b + 1..e])) = []"
    "snd (plan os path True f b [b + 1..e]) = Some StructError" by blast+
  show ?case unfolding up plan_Cons_Inr [OF q] using ih by simp
qed

lemma scan_plan_beyond_pack:
  assumes "2 ^ 32 < bmap_blocks_cnt self"
    and "\<forall>b. 0 \<le> b \<and> b < 2 ^ 32 \<longrightarrow> answered os b \<and> mapped os b"
  shows "yields (fst (scan_plan os self)) = [] \<and> snd (scan_plan os self) = Some StructError"
proof -
  define e where "e = bmap_blocks_cnt self - 1"
  have e: "2 ^ 32 \<le> e" using assms(1) by (simp add: e_def)
  have e0: "0 \<le> e" using e by simp
  have up: "[0..e] = 0 # [0 + 1..e]" by (rule upto_rec1 [OF e0])
  have z: "answered os 0" "mapped os 0" using assms(2) [rule_format, of 0] by simp_all
  have q: "is_mapped_result os (image_path self) 0 = Inr True"
    using is_mapped_result_answered [of 0 os "image_path self"] z by simp
  have tot: "\<forall>b. 0 < b \<and> b < 2 ^ 32 \<longrightarrow> answered os b \<and> mapped os b"
    using assms(2) by simp
  have m1: "- 1 \<le> (0 :: int)" and l0: "(0 :: int) < 2 ^ 32" by simp_all
  from plan_mapped_until_pack [OF tot m1 l0 e, of "image_path self" 0]
  have p: "yields (fst (plan os (image_path self) True 0 0 [0 + 1..e])) = []"
    "snd (plan os (image_path self) True 0 0 [0 + 1..e]) = Some StructError"
    by (rule conjunct1, rule conjunct2)
  show ?thesis
    unfolding scan_plan_def e_def [symmetric] up plan_Cons_Inr [OF q] using p by simp
qed

lemma big_blocks_cnt: "bmap_blocks_cnt (example_creator (2 ^ 32 + 1)) = 2 ^ 32 + 1"
  by (simp add: example_creator_def new_creator_def)

lemma big_scan_plan:
  "yields (fst (scan_plan (example_os (\<lambda>b. Inr 7)) (example_creator (2 ^ 32 + 1)))) = [] \<and>
   snd (scan_plan (example_os (\<lambda>b. Inr 7)) (example_creator (2 ^ 32 + 1))) = Some StructError"
proof -
  have 1: "2 ^ 32 < bmap_blocks_cnt (example_creator (2 ^ 32 + 1))"
    unfolding big_blocks_cnt by simp
  have 2: "\<forall>b. 0 \<le> b \<and> b < 2 ^ 32 \<longrightarrow>
      answered (example_os (\<lambda>b. Inr 7)) b \<and> mapped (example_os (\<lambda>b. Inr 7)) b"
    by (simp add: answered_def mapped_def example_os_def)
  show ?thesis by (rule scan_plan_beyond_pack [OF 1 2])
qed

lemma big_init:
  "init (example_os (\<lambda>b. Inr 7)) ''image.raw'' (example_world big_image) =
     (Inr (example_creator (2 ^ 32 + 1)), probe_world (example_world big_image))"
proof -
  have len: "length big_image = 4096 * (2 ^ 32 + 1)"
    unfolding big_image_def by (rule length_replicate)
  have ne: "big_image \<noteq> []"
  proof
    assume "big_image = []"
    then have "length big_image = 0" by simp
    with len show False by simp
  qed
  have h: "open_err (example_os (\<lambda>b. Inr 7)) = None"
    "image_bytes (example_world big_image) \<noteq> []"
    "figetbsz (example_os (\<lambda>b. Inr 7)) = Inr 4096" "(4096 :: 32 word) \<noteq> 0"
    using ne by (simp_all add: example_os_def example_world_def)
  show ?thesis
    unfolding init_probe [OF h]
    by (simp add: example_os_def example_world_def len example_creator_def)
qed

text \<open>
  Claim C2 does not hold of every image. \<^verbatim>\<open>__init__\<close> accepts an image of \<open>2^32 + 1\<close>
  blocks of 4096 bytes; with an ioctl that answers for every block and maps every block,
  \<^verbatim>\<open>list(self._get_ranges())\<close> ends in \<^verbatim>\<open>struct.error\<close>, raised by \<^verbatim>\<open>struct.pack('I', block)\<close>
  at block \<open>2^32\<close>, and returns no range.
\<close>

theorem ranges_beyond_pack_bound:
  "init (example_os (\<lambda>b. Inr 7)) ''image.raw'' (example_world big_image) =
     (Inr (example_creator (2 ^ 32 + 1)), probe_world (example_world big_image)) \<and>
   bmap_blocks_cnt (example_creator (2 ^ 32 + 1)) = 2 ^ 32 + 1 \<and>
   (\<forall>b. answered (example_os (\<lambda>b. Inr 7)) b \<and> mapped (example_os (\<lambda>b. Inr 7)) b) \<and>
   (case ranges_list (example_os (\<lambda>b. Inr 7)) (example_creator (2 ^ 32 + 1))
           (probe_world (example_world big_image)) of
      None \<Rightarrow> False
    | Some (Inl e, w') \<Rightarrow> e = StructError
    | Some (Inr rs, w') \<Rightarrow> False)"
proof -
  have 3: "\<forall>b. answered (example_os (\<lambda>b. Inr 7)) b \<and> mapped (example_os (\<lambda>b. Inr 7)) b"
    by (simp add: answered_def mapped_def example_os_def)
  have 4: "case ranges_list (example_os (\<lambda>b. Inr 7)) (example_creator (2 ^ 32 + 1))
           (probe_world (example_world big_image)) of
      None \<Rightarrow> False
    | Some (Inl e, w') \<Rightarrow> e = StructError
    | Some (Inr rs, w') \<Rightarrow> False"
    unfolding ranges_list_scan_plan big_scan_plan [THEN conjunct2] by simp
  show ?thesis by (intro conjI big_init big_blocks_cnt 3 4)
qed

subsection \<open>The outcome of a generation\<close>

lemma generate_returns: "\<exists>res w'. generate os self inc w = Some (res, w')"
proof -
  from generate_run [of os self inc w]
  obtain res w' t where "generate os self inc w = Some (res, w') \<and>
      events w' = events w @ Info (bmap_file_start_xml os self) # t" by (elim exE conjE) (rule that, rule conjI)
  then have "generate os self inc w = Some (res, w')" by (rule conjunct1)
  then show ?thesis by (intro exI)
qed

lemma generate_failure:
  assumes "generate os self inc w = Some (Inl err, w')"
  shows "\<exists>t k. events w' = events w @ Info (bmap_file_start_xml os self) # t \<and>
           list_all2 emits (take k (fst (scan_plan os self))) t"
proof -
  let ?steps = "fst (scan_plan os self)"
  let ?mc = "sum_list (map range_length (yields ?steps))"
  from generate_run [of os self inc w]
  obtain res where "\<exists>w'' t. generate os self inc w = Some (res, w'') \<and>
     events w'' = events w @ Info (bmap_file_start_xml os self) # t \<and>
     (\<forall>err. res = Inl err \<longrightarrow> (\<exists>k. list_all2 emits (take k ?steps) t)) \<and>
     (\<forall>self'. res = Inr self' \<longrightarrow>
        (\<exists>ts. t = ts @ [Info (footer os self ?mc)] \<and> list_all2 emits ?steps ts) \<and>
        self' = finished self ?mc \<and> snd (scan_plan os self) = None \<and> bmap_blocks_cnt self \<noteq> 0) \<and>
     (benign os \<longrightarrow> snd (scan_plan os self) = None \<longrightarrow> bmap_blocks_cnt self \<noteq> 0 \<longrightarrow>
        (\<exists>self'. res = Inr self'))" ..
  then obtain w'' where "\<exists>t. generate os self inc w = Some (res, w'') \<and>
     events w'' = events w @ Info (bmap_file_start_xml os self) # t \<and>
     (\<forall>err. res = Inl err \<longrightarrow> (\<exists>k. list_all2 emits (take k ?steps) t)) \<and>
     (\<forall>self'. res = Inr self' \<longrightarrow>
        (\<exists>ts. t = ts @ [Info (footer os self ?mc)] \<and> list_all2 emits ?steps ts) \<and>
        self' = finished self ?mc \<and> snd (scan_plan os self) = None \<and> bmap_blocks_cnt self \<noteq> 0) \<and>
     (benign os \<longrightarrow> snd (scan_plan os self) = None \<longrightarrow> bmap_blocks_cnt self \<noteq> 0 \<longrightarrow>
        (\<exists>self'. res = Inr self'))" ..
  then obtain t where all: "generate os self inc w = Some (res, w'') \<and>
     events w'' = events w @ Info (bmap_file_start_xml os self) # t \<and>
     (\<forall>err. res = Inl err \<longrightarrow> (\<exists>k. list_all2 emits (take k ?steps) t)) \<and>
     (\<forall>self'. res = Inr self' \<longrightarrow>
        (\<exists>ts. t = ts @ [Info (footer os self ?mc)] \<and> list_all2 emits ?steps ts) \<and>
        self' = finished self ?mc \<and> snd (scan_plan os self) = None \<and> bmap_blocks_cnt self \<noteq> 0) \<and>
     (benign os \<longrightarrow> snd (scan_plan os self) = None \<longrightarrow> bmap_blocks_cnt self \<noteq> 0 \<longrightarrow>
        (\<exists>self'. res = Inr self'))" ..
  have g: "generate os self inc w = Some (res, w'')" using all by (rule conjunct1)
  have e: "events w'' = events w @ Info (bmap_file_start_xml os self) # t" using all by (elim conjE)
  have fl: "\<forall>err. res = Inl err \<longrightarrow> (\<exists>k. list_all2 emits (take k ?steps) t)"
    using all by (elim conjE)
  from g assms have r: "res = Inl err" and w: "w'' = w'" by simp_all
  from fl r obtain k where l: "list_all2 emits (take k ?steps) t" by blast
  have e': "events w' = events w @ Info (bmap_file_start_xml os self) # t" using e w by simp
  show ?thesis by (rule exI [where x = t], rule exI [where x = k]) (intro conjI e' l)
qed

lemma yields_take: "\<exists>j. yields (take k steps) = take j (yields steps)"
proof (induction steps arbitrary: k)
  case Nil
  show ?case by simp
next
  case (Cons s steps)
  show ?case
  proof (cases k)
    case 0
    show ?thesis by (rule exI [where x = 0]) (simp add: 0)
  next
    case (Suc k')
    from Cons.IH [of k'] obtain j where j: "yields (take k' steps) = take j (yields steps)" ..
    show ?thesis
    proof (cases s)
      case (Ev e)
      show ?thesis by (rule exI [where x = j]) (simp add: Suc Ev j)
    next
      case (Yield f l)
      show ?thesis by (rule exI [where x = "Suc j"]) (simp add: Suc Yield j)
    qed
  qed
qed

lemma emitted_prefix:
  assumes "list_all2 emits (take k (fst (scan_plan os self))) t"
  shows "\<exists>items. outputs t = map range_element items \<and>
           map snd items = take (length items) (yields (fst (scan_plan os self)))"
proof -
  let ?steps = "fst (scan_plan os self)"
  have q: "\<forall>s \<in> set (take k ?steps). is_query s \<or> (\<exists>a b. s = Yield a b)"
    using scan_plan_steps [of os self] by (meson in_set_takeD)
  from emitted_outputs [OF q assms] obtain items where
    o: "outputs t = map range_element items" and y: "map snd items = yields (take k ?steps)"
    by blast
  from yields_take [of k ?steps] obtain j where j: "yields (take k ?steps) = take j (yields ?steps)" ..
  have "length items = length (take j (yields ?steps))" using y j by (metis length_map)
  then have "take (length items) (yields ?steps) = take j (yields ?steps)"
    by (simp add: min_def take_all)
  with y j have m: "map snd items = take (length items) (yields ?steps)" by simp
  show ?thesis by (rule exI [where x = items]) (intro conjI o m)
qed

lemma emitted_all:
  assumes "list_all2 emits (fst (scan_plan os self)) ts"
  shows "\<exists>items. outputs ts = map range_element items \<and>
           map snd items = yields (fst (scan_plan os self))"
  using emitted_outputs [OF scan_plan_steps assms] .

lemma generate_succeeds:
  assumes "benign os" and "0 < bmap_blocks_cnt self" and "bmap_blocks_cnt self \<le> 2 ^ 32"
    and "\<forall>b. 0 \<le> b \<and> b < bmap_blocks_cnt self \<longrightarrow> answered os b"
  shows "\<exists>self' w'. generate os self inc w = Some (Inr self', w')"
proof -
  have f: "snd (scan_plan os self) = None" by (rule scan_plan_total [OF assms(3,4)])
  have nz: "bmap_blocks_cnt self \<noteq> 0" using assms(2) by simp
  show ?thesis by (rule generate_benign [OF assms(1) f nz])
qed

lemma example_generate:
  "generate (example_os example_pattern) (example_creator 6) False (example_world []) =
     Some (Inr (finished (example_creator 6) 4), example_world []\<lparr>events := example_events\<rparr>)"
  by (simp add: generate_def get_ranges_def is_mapped_def generate_body_def
        bmap_file_end_def bmap_file_start_def info_def Let_def
        example_os_def example_world_def example_creator_def new_creator_def example_pattern_def
        finished_def footer_def upto_rec1 example_events_def)

lemma example_generate_all_mapped:
  "generate (example_os (\<lambda>b. Inr 7)) (example_creator 3) False (example_world []) =
     Some (Inr (finished (example_creator 3) 3),
           example_world []\<lparr>events :=
             [Info (bmap_file_start_xml (example_os (\<lambda>b. Inr 7)) (example_creator 3)),
              Ioctl 1 0, Ioctl 1 1, Ioctl 1 2, Info (range_xml [] 0 2),
              Info (footer (example_os (\<lambda>b. Inr 7)) (example_creator 3) 3)]\<rparr>)"
  by (simp add: generate_def get_ranges_def is_mapped_def generate_body_def
        bmap_file_end_def bmap_file_start_def info_def Let_def
        example_os_def example_world_def example_creator_def new_creator_def
        finished_def footer_def upto_rec1)

lemma example_generate_all_unmapped:
  "generate (example_os (\<lambda>b. Inr 0)) (example_creator 3) False (example_world []) =
     Some (Inr (finished (example_creator 3) 0),
           example_world []\<lparr>events :=
             [Info (bmap_file_start_xml (example_os (\<lambda>b. Inr 0)) (example_creator 3)),
              Ioctl 1 0, Ioctl 1 1, Ioctl 1 2,
              Info (footer (example_os (\<lambda>b. Inr 0)) (example_creator 3) 0)]\<rparr>)"
  by (simp add: generate_def get_ranges_def is_mapped_def generate_body_def
        bmap_file_end_def bmap_file_start_def info_def Let_def
        example_os_def example_world_def example_creator_def new_creator_def
        finished_def footer_def upto_rec1)



text \<open>
  Claim C9. Every generation returns, and the first thing it hands to the logger is the
  header (\<open>bmap_file_start_xml\<close>: version, image size, block size and block count), before
  any query of the scan. The queries of the scan are on the blocks 0, 1, ... in order.
  Every text handed to the logger after the header is either a range element that directly
  follows the query that ended the run of its range (the query of the block after its last
  block, or of its last block when that is the last block of the image), or the footer,
  which is then the last event of a generation that succeeds and comes after the queries
  of all the blocks. The range elements are those of the ranges of the scan, in order: all
  of them, followed by the footer, when the generation succeeds, and the first of them
  when it fails. It succeeds when flushing, synchronising and reading succeed, the block
  count is between 1 and \<open>2^32\<close> and the ioctl answers for every block.
\<close>

theorem generate_output_order:
  "case generate os self include_checksums w of
     None \<Rightarrow> False
   | Some (res, w') \<Rightarrow>
       (\<exists>t items.
          events w' = events w @ Info (bmap_file_start_xml os self) # t \<and>
          (\<exists>k. fibmap_queries t = take k [0..bmap_blocks_cnt self - 1]) \<and>
          (\<forall>pre s post. t = pre @ Info s # post \<longrightarrow>
             after_discovery (bmap_blocks_cnt self) pre s \<or>
             (post = [] \<and> (\<exists>self'. res = Inr self') \<and> (\<exists>mapped_cnt. s = footer os self mapped_cnt) \<and>
              fibmap_queries pre = [0..bmap_blocks_cnt self - 1])) \<and>
          map snd items = take (length items) (yields (fst (scan_plan os self))) \<and>
          (case res of
             Inl e \<Rightarrow> outputs t = map range_element items
           | Inr self' \<Rightarrow>
               map snd items = yields (fst (scan_plan os self)) \<and>
               (\<exists>ts mapped_cnt. t = ts @ [Info (footer os self mapped_cnt)] \<and>
                  outputs ts = map range_element items))) \<and>
       (benign os \<and> 0 < bmap_blocks_cnt self \<and> bmap_blocks_cnt self \<le> 2 ^ 32 \<and>
        (\<forall>b. 0 \<le> b \<and> b < bmap_blocks_cnt self \<longrightarrow> answered os b) \<longrightarrow>
          (\<exists>self'. res = Inr self'))"
proof -
  let ?steps = "fst (scan_plan os self)"
  let ?mc = "sum_list (map range_length (yields ?steps))"
  let ?n = "bmap_blocks_cnt self"
  from generate_returns [of os self include_checksums w]
  obtain res w' where g: "generate os self include_checksums w = Some (res, w')" by blast
  have good: "benign os \<and> 0 < ?n \<and> ?n \<le> 2 ^ 32 \<and>
        (\<forall>b. 0 \<le> b \<and> b < ?n \<longrightarrow> answered os b) \<longrightarrow> (\<exists>self'. res = Inr self')"
  proof
    assume a: "benign os \<and> 0 < ?n \<and> ?n \<le> 2 ^ 32 \<and>
        (\<forall>b. 0 \<le> b \<and> b < ?n \<longrightarrow> answered os b)"
    have a1: "benign os" using a by (rule conjunct1)
    have a2: "0 < ?n" using a by (elim conjE)
    have a3: "?n \<le> 2 ^ 32" using a by (elim conjE)
    have a4: "\<forall>b. 0 \<le> b \<and> b < ?n \<longrightarrow> answered os b" using a by (elim conjE)
    from generate_succeeds [OF a1 a2 a3 a4, of include_checksums w] g
    show "\<exists>self'. res = Inr self'" by simp
  qed
  have main: "\<exists>t items.
          events w' = events w @ Info (bmap_file_start_xml os self) # t \<and>
          (\<exists>k. fibmap_queries t = take k [0..?n - 1]) \<and>
          (\<forall>pre s post. t = pre @ Info s # post \<longrightarrow>
             after_discovery ?n pre s \<or>
             (post = [] \<and> (\<exists>self'. res = Inr self') \<and> (\<exists>mapped_cnt. s = footer os self mapped_cnt) \<and>
              fibmap_queries pre = [0..?n - 1])) \<and>
          map snd items = take (length items) (yields ?steps) \<and>
          (case res of
             Inl e \<Rightarrow> outputs t = map range_element items
           | Inr self' \<Rightarrow>
               map snd items = yields ?steps \<and>
               (\<exists>ts mapped_cnt. t = ts @ [Info (footer os self mapped_cnt)] \<and>
                  outputs ts = map range_element items))"
  proof (cases res)
    case (Inl err)
    have g': "generate os self include_checksums w = Some (Inl err, w')" using g Inl by simp
    from generate_failure [OF g'] obtain t k where
      e: "events w' = events w @ Info (bmap_file_start_xml os self) # t" and
      l: "list_all2 emits (take k ?steps) t"
      by blast
    have q: "\<exists>k. fibmap_queries t = take k [0..?n - 1]"
      by (rule emitted_scan_queries [OF l])
    have a: "\<forall>pre s post. t = pre @ Info s # post \<longrightarrow>
             after_discovery ?n pre s \<or>
             (post = [] \<and> (\<exists>self'. res = Inr self') \<and> (\<exists>mapped_cnt. s = footer os self mapped_cnt) \<and>
              fibmap_queries pre = [0..?n - 1])"
      using emitted_after_discovery [OF l] by blast
    from emitted_prefix [OF l] obtain items where
      o: "outputs t = map range_element items" and
      m: "map snd items = take (length items) (yields ?steps)"
      by blast
    have c: "case res of
             Inl e \<Rightarrow> outputs t = map range_element items
           | Inr self' \<Rightarrow>
               map snd items = yields ?steps \<and>
               (\<exists>ts mapped_cnt. t = ts @ [Info (footer os self mapped_cnt)] \<and>
                  outputs ts = map range_element items)"
      unfolding Inl using o by simp
    show ?thesis
      by (rule exI [where x = t], rule exI [where x = items]) (intro conjI e q a m c)
  next
    case (Inr self')
    have g': "generate os self include_checksums w = Some (Inr self', w')" using g Inr by simp
    from generate_success [OF g'] obtain ts where
      e: "events w' = events w @ Info (bmap_file_start_xml os self) # ts @ [Info (footer os self ?mc)]" and
      l: "list_all2 emits ?steps ts" and
      f: "snd (scan_plan os self) = None"
      by blast
    define t where "t = ts @ [Info (footer os self ?mc)]"
    have e': "events w' = events w @ Info (bmap_file_start_xml os self) # t"
      unfolding t_def by (rule e)
    have qs: "fibmap_queries ts = [0..?n - 1]"
      by (rule emitted_all_queries [OF l f])
    have q: "\<exists>k. fibmap_queries t = take k [0..?n - 1]"
      by (rule exI [where x = "length [0..?n - 1]"]) (simp add: t_def qs)
    have l': "list_all2 emits (take (length ?steps) ?steps) ts" using l by simp
    have a: "\<forall>pre s post. t = pre @ Info s # post \<longrightarrow>
             after_discovery ?n pre s \<or>
             (post = [] \<and> (\<exists>self'. res = Inr self') \<and> (\<exists>mapped_cnt. s = footer os self mapped_cnt) \<and>
              fibmap_queries pre = [0..?n - 1])"
    proof (intro allI impI)
      fix pre s post
      assume "t = pre @ Info s # post"
      then have "ts @ [Info (footer os self ?mc)] = pre @ Info s # post" by (simp add: t_def)
      from snoc_split [OF this]
      show "after_discovery ?n pre s \<or>
             (post = [] \<and> (\<exists>self'. res = Inr self') \<and> (\<exists>mapped_cnt. s = footer os self mapped_cnt) \<and>
              fibmap_queries pre = [0..?n - 1])"
      proof
        assume "post = [] \<and> pre = ts \<and> Info s = Info (footer os self ?mc)"
        then show ?thesis using Inr qs by auto
      next
        assume "\<exists>post'. post = post' @ [Info (footer os self ?mc)] \<and> ts = pre @ Info s # post'"
        then obtain post' where "ts = pre @ Info s # post'" by blast
        from emitted_after_discovery [OF l' this] show ?thesis by simp
      qed
    qed
    from emitted_all [OF l] obtain items where
      o: "outputs ts = map range_element items" and y: "map snd items = yields ?steps"
      by blast
    have "length items = length (yields ?steps)" using y by (metis length_map)
    then have m: "map snd items = take (length items) (yields ?steps)" using y by simp
    have x: "\<exists>ts mapped_cnt. t = ts @ [Info (footer os self mapped_cnt)] \<and>
                  outputs ts = map range_element items"
      by (rule exI [where x = ts], rule exI [where x = ?mc]) (intro conjI t_def o)
    have c: "case res of
             Inl e \<Rightarrow> outputs t = map range_element items
           | Inr self' \<Rightarrow>
               map snd items = yields ?steps \<and>
               (\<exists>ts mapped_cnt. t = ts @ [Info (footer os self mapped_cnt)] \<and>
                  outputs ts = map range_element items)"
      unfolding Inr using y x by simp
    show ?thesis
      by (rule exI [where x = t], rule exI [where x = items]) (intro conjI e' q a m c)
  qed
  show ?thesis
    unfolding g option.case prod.case by (intro conjI main good)
qed

theorem generate_output_order_witness:
  "generate (example_os example_pattern) (example_creator 6) False (example_world []) =
     Some (Inr (finished (example_creator 6) 4), example_world []\<lparr>events := example_events\<rparr>) \<and>
   after_discovery (bmap_blocks_cnt (example_creator 6)) [Ioctl 1 0, Ioctl 1 1, Ioctl 1 2]
     (range_xml [] 0 1) \<and>
   (\<exists>k. fibmap_queries (tl example_events) = take k [0..bmap_blocks_cnt (example_creator 6) - 1])"
proof -
  let ?os = "example_os example_pattern"
  let ?self = "example_creator 6"
  let ?n = "bmap_blocks_cnt ?self"
  have "\<exists>t items.
          events (example_world []\<lparr>events := example_events\<rparr>) =
            events (example_world []) @ Info (bmap_file_start_xml ?os ?self) # t \<and>
          (\<exists>k. fibmap_queries t = take k [0..?n - 1]) \<and>
          (\<forall>pre s post. t = pre @ Info s # post \<longrightarrow>
             after_discovery ?n pre s \<or>
             (post = [] \<and> (\<exists>self'. (Inr (finished ?self 4) :: error + creator) = Inr self') \<and>
              (\<exists>mapped_cnt. s = footer ?os ?self mapped_cnt) \<and>
              fibmap_queries pre = [0..?n - 1])) \<and>
          map snd items = take (length items) (yields (fst (scan_plan ?os ?self))) \<and>
          (case (Inr (finished ?self 4) :: error + creator) of
             Inl e \<Rightarrow> outputs t = map range_element items
           | Inr self' \<Rightarrow>
               map snd items = yields (fst (scan_plan ?os ?self)) \<and>
               (\<exists>ts mapped_cnt. t = ts @ [Info (footer ?os ?self mapped_cnt)] \<and>
                  outputs ts = map range_element items))"
    using generate_output_order [where os = ?os and self = ?self
        and include_checksums = False and w = "example_world []"]
    unfolding example_generate option.case prod.case by (rule conjunct1)
  then obtain t where "\<exists>items.
          events (example_world []\<lparr>events := example_events\<rparr>) =
            events (example_world []) @ Info (bmap_file_start_xml ?os ?self) # t \<and>
          (\<exists>k. fibmap_queries t = take k [0..?n - 1]) \<and>
          (\<forall>pre s post. t = pre @ Info s # post \<longrightarrow>
             after_discovery ?n pre s \<or>
             (post = [] \<and> (\<exists>self'. (Inr (finished ?self 4) :: error + creator) = Inr self') \<and>
              (\<exists>mapped_cnt. s = footer ?os ?self mapped_cnt) \<and>
              fibmap_queries pre = [0..?n - 1])) \<and>
          map snd items = take (length items) (yields (fst (scan_plan ?os ?self))) \<and>
          (case (Inr (finished ?self 4) :: error + creator) of
             Inl e \<Rightarrow> outputs t = map range_element items
           | Inr self' \<Rightarrow>
               map snd items = yields (fst (scan_plan ?os ?self)) \<and>
               (\<exists>ts mapped_cnt. t = ts @ [Info (footer ?os ?self mapped_cnt)] \<and>
                  outputs ts = map range_element items))" ..
  then obtain items where all:
         "events (example_world []\<lparr>events := example_events\<rparr>) =
            events (example_world []) @ Info (bmap_file_start_xml ?os ?self) # t \<and>
          (\<exists>k. fibmap_queries t = take k [0..?n - 1]) \<and>
          (\<forall>pre s post. t = pre @ Info s # post \<longrightarrow>
             after_discovery ?n pre s \<or>
             (post = [] \<and> (\<exists>self'. (Inr (finished ?self 4) :: error + creator) = Inr self') \<and>
              (\<exists>mapped_cnt. s = footer ?os ?self mapped_cnt) \<and>
              fibmap_queries pre = [0..?n - 1])) \<and>
          map snd items = take (length items) (yields (fst (scan_plan ?os ?self))) \<and>
          (case (Inr (finished ?self 4) :: error + creator) of
             Inl e \<Rightarrow> outputs t = map range_element items
           | Inr self' \<Rightarrow>
               map snd items = yields (fst (scan_plan ?os ?self)) \<and>
               (\<exists>ts mapped_cnt. t = ts @ [Info (footer ?os ?self mapped_cnt)] \<and>
                  outputs ts = map range_element items))" ..
  have e: "events (example_world []\<lparr>events := example_events\<rparr>) =
            events (example_world []) @ Info (bmap_file_start_xml ?os ?self) # t"
    using all by (rule conjunct1)
  have q: "\<exists>k. fibmap_queries t = take k [0..?n - 1]" using all by (elim conjE)
  have a: "\<forall>pre s post. t = pre @ Info s # post \<longrightarrow>
             after_discovery ?n pre s \<or>
             (post = [] \<and> (\<exists>self'. (Inr (finished ?self 4) :: error + creator) = Inr self') \<and>
              (\<exists>mapped_cnt. s = footer ?os ?self mapped_cnt) \<and>
              fibmap_queries pre = [0..?n - 1])"
    using all by (elim conjE)
  have t: "t = tl example_events"
    using e by (simp add: example_world_def example_events_def)
  have s: "t = [Ioctl 1 0, Ioctl 1 1, Ioctl 1 2] @ Info (range_xml [] 0 1) #
      [Ioctl 1 3, Ioctl 1 4, Info (range_xml [] 3 3), Ioctl 1 5, Info (range_xml [] 5 5),
       Info (footer ?os ?self 4)]"
    unfolding t by (simp add: example_events_def)
  from a [rule_format, OF s]
  have d: "after_discovery ?n [Ioctl 1 0, Ioctl 1 1, Ioctl 1 2] (range_xml [] 0 1)" by simp
  have q': "\<exists>k. fibmap_queries (tl example_events) = take k [0..?n - 1]"
    using q unfolding t .
  show ?thesis by (intro conjI example_generate d q')
qed

subsection \<open>Images that are all mapped or all unmapped\<close>

lemma plan_all_mapped:
  assumes "\<forall>b. l < b \<and> b \<le> e \<longrightarrow> 0 \<le> b \<and> b < 2 ^ 32 \<and> answered os b \<and> mapped os b"
    and "l \<le> e"
  shows "yields (fst (plan os path True f l [l + 1..e])) = [(f, e)] \<and>
         snd (plan os path True f l [l + 1..e]) = None"
  using assms
proof (induction "nat (e - l)" arbitrary: l)
  case 0
  then have "l = e" by simp
  then show ?case by simp
next
  case (Suc n)
  define b where "b = l + 1"
  have le: "l < e" using Suc.hyps(2) by simp
  have up: "[l + 1..e] = b # [b + 1..e]" using le by (simp add: b_def upto_rec1)
  have bb: "0 \<le> b" "b < 2 ^ 32" "answered os b" "mapped os b"
    using Suc.prems(1) [rule_format, of b] le by (simp_all add: b_def)
  have q: "is_mapped_result os path b = Inr True"
    using is_mapped_result_answered [OF bb(1-3), of path] bb(4) by simp
  have n: "n = nat (e - b)" using Suc.hyps(2) by (simp add: b_def)
  have tot: "\<forall>c. b < c \<and> c \<le> e \<longrightarrow> 0 \<le> c \<and> c < 2 ^ 32 \<and> answered os c \<and> mapped os c"
    using Suc.prems(1) by (simp add: b_def)
  have be: "b \<le> e" using le by (simp add: b_def)
  from Suc.hyps(1) [OF n tot be]
  have ih: "yields (fst (plan os path True f b [b + 1..e])) = [(f, e)]"
    "snd (plan os path True f b [b + 1..e]) = None" by blast+
  show ?case unfolding up plan_Cons_Inr [OF q] using ih by simp
qed

lemma plan_all_unmapped:
  assumes "\<forall>b. l < b \<and> b \<le> e \<longrightarrow> 0 \<le> b \<and> b < 2 ^ 32 \<and> answered os b \<and> \<not> mapped os b"
    and "l \<le> e"
  shows "yields (fst (plan os path False f l [l + 1..e])) = [] \<and>
         snd (plan os path False f l [l + 1..e]) = None"
  using assms
proof (induction "nat (e - l)" arbitrary: l f)
  case 0
  then have "l = e" by simp
  then show ?case by simp
next
  case (Suc n)
  define b where "b = l + 1"
  have le: "l < e" using Suc.hyps(2) by simp
  have up: "[l + 1..e] = b # [b + 1..e]" using le by (simp add: b_def upto_rec1)
  have bb: "0 \<le> b" "b < 2 ^ 32" "answered os b" "\<not> mapped os b"
    using Suc.prems(1) [rule_format, of b] le by (simp_all add: b_def)
  have q: "is_mapped_result os path b = Inr False"
    using is_mapped_result_answered [OF bb(1-3), of path] bb(4) by simp
  have n: "n = nat (e - b)" using Suc.hyps(2) by (simp add: b_def)
  have tot: "\<forall>c. b < c \<and> c \<le> e \<longrightarrow> 0 \<le> c \<and> c < 2 ^ 32 \<and> answered os c \<and> \<not> mapped os c"
    using Suc.prems(1) by (simp add: b_def)
  have be: "b \<le> e" using le by (simp add: b_def)
  from Suc.hyps(1) [OF n tot be, of f]
  have ih: "yields (fst (plan os path False f b [b + 1..e])) = []"
    "snd (plan os path False f b [b + 1..e]) = None" by blast+
  show ?case unfolding up plan_Cons_Inr [OF q] using ih by simp
qed

lemma scan_plan_all_mapped:
  assumes "0 < bmap_blocks_cnt self" and "bmap_blocks_cnt self \<le> 2 ^ 32"
    and "\<forall>b. 0 \<le> b \<and> b < bmap_blocks_cnt self \<longrightarrow> answered os b \<and> mapped os b"
  shows "yields (fst (scan_plan os self)) = [(0, bmap_blocks_cnt self - 1)] \<and>
         snd (scan_plan os self) = None"
proof -
  define e where "e = bmap_blocks_cnt self - 1"
  have e0: "0 \<le> e" using assms(1) by (simp add: e_def)
  have up: "[0..e] = 0 # [0 + 1..e]" using e0 by (simp add: upto_rec1)
  have z: "answered os 0" "mapped os 0" using assms(1,3) by simp_all
  have q: "is_mapped_result os (image_path self) 0 = Inr True"
    using is_mapped_result_answered [of 0 os "image_path self"] z by simp
  have tot: "\<forall>b. 0 < b \<and> b \<le> e \<longrightarrow> 0 \<le> b \<and> b < 2 ^ 32 \<and> answered os b \<and> mapped os b"
  proof (intro allI impI)
    fix b :: int
    assume b: "0 < b \<and> b \<le> e"
    then have "0 \<le> b \<and> b < bmap_blocks_cnt self" by (simp add: e_def)
    with assms(3) have "answered os b \<and> mapped os b" by blast
    moreover have "b < 2 ^ 32" using b assms(2) by (simp add: e_def)
    ultimately show "0 \<le> b \<and> b < 2 ^ 32 \<and> answered os b \<and> mapped os b" using b by simp
  qed
  from plan_all_mapped [OF tot e0, of "image_path self" 0]
  have p: "yields (fst (plan os (image_path self) True 0 0 [0 + 1..e])) = [(0, e)]"
    "snd (plan os (image_path self) True 0 0 [0 + 1..e]) = None" by blast+
  show ?thesis
    unfolding scan_plan_def e_def [symmetric] up plan_Cons_Inr [OF q] using p by simp
qed

lemma scan_plan_all_unmapped:
  assumes "0 < bmap_blocks_cnt self" and "bmap_blocks_cnt self \<le> 2 ^ 32"
    and "\<forall>b. 0 \<le> b \<and> b < bmap_blocks_cnt self \<longrightarrow> answered os b \<and> \<not> mapped os b"
  shows "yields (fst (scan_plan os self)) = [] \<and> snd (scan_plan os self) = None"
proof -
  define e where "e = bmap_blocks_cnt self - 1"
  have e0: "- 1 \<le> e" using assms(1) by (simp add: e_def)
  have tot: "\<forall>b. - 1 < b \<and> b \<le> e \<longrightarrow> 0 \<le> b \<and> b < 2 ^ 32 \<and> answered os b \<and> \<not> mapped os b"
  proof (intro allI impI)
    fix b :: int
    assume b: "- 1 < b \<and> b \<le> e"
    then have "0 \<le> b \<and> b < bmap_blocks_cnt self" by (simp add: e_def)
    with assms(3) have "answered os b \<and> \<not> mapped os b" by blast
    moreover have "b < 2 ^ 32" using b assms(2) by (simp add: e_def)
    ultimately show "0 \<le> b \<and> b < 2 ^ 32 \<and> answered os b \<and> \<not> mapped os b" using b by simp
  qed
  from plan_all_unmapped [OF tot e0, of "image_path self" "- 1"]
  show ?thesis unfolding scan_plan_def e_def [symmetric] by simp
qed

text \<open>
  Claim C7. When flushing, synchronising and reading succeed, the block count \<open>N\<close> is
  between 1 and \<open>2^32\<close> and the ioctl answers for every block: if every block is mapped,
  the generation succeeds and the logger receives the header, the one range element
  \<open>0-(N-1)\<close> and the footer of \<open>N\<close> mapped blocks and 100 percent, and the instance holds
  100 percent; if no block is mapped, it succeeds and the logger receives the header and
  the footer of 0 mapped blocks and 0 percent, and no range element. The percentage is the
  exact quotient \<open>mapped_cnt * 100 / blocks_cnt\<close>.
\<close>

theorem all_mapped_or_all_unmapped:
  assumes "benign os" and "0 < bmap_blocks_cnt self" and "bmap_blocks_cnt self \<le> 2 ^ 32"
    and "\<forall>b. 0 \<le> b \<and> b < bmap_blocks_cnt self \<longrightarrow> answered os b"
  shows "((\<forall>b. 0 \<le> b \<and> b < bmap_blocks_cnt self \<longrightarrow> mapped os b) \<longrightarrow>
            (case generate os self include_checksums w of
               None \<Rightarrow> False
             | Some (Inl e, w') \<Rightarrow> False
             | Some (Inr self', w') \<Rightarrow>
                 (\<exists>sha1. outputs (events w') =
                    outputs (events w) @
                      [bmap_file_start_xml os self,
                       range_xml sha1 0 (bmap_blocks_cnt self - 1),
                       bmap_file_end_xml os (bmap_blocks_cnt self * bmap_block_size self) 100
                         (bmap_blocks_cnt self)]) \<and>
                 bmap_mapped_percent self' = Some 100)) \<and>
         ((\<forall>b. 0 \<le> b \<and> b < bmap_blocks_cnt self \<longrightarrow> \<not> mapped os b) \<longrightarrow>
            (case generate os self include_checksums w of
               None \<Rightarrow> False
             | Some (Inl e, w') \<Rightarrow> False
             | Some (Inr self', w') \<Rightarrow>
                 outputs (events w') =
                   outputs (events w) @ [bmap_file_start_xml os self, bmap_file_end_xml os 0 0 0] \<and>
                 bmap_mapped_percent self' = Some 0))"
proof (intro conjI impI)
  let ?n = "bmap_blocks_cnt self"
  let ?steps = "fst (scan_plan os self)"
  let ?mc = "sum_list (map range_length (yields ?steps))"
  assume m: "\<forall>b. 0 \<le> b \<and> b < ?n \<longrightarrow> mapped os b"
  have am: "\<forall>b. 0 \<le> b \<and> b < ?n \<longrightarrow> answered os b \<and> mapped os b"
    using assms(4) m by blast
  from scan_plan_all_mapped [OF assms(2,3) am]
  have y: "yields ?steps = [(0, ?n - 1)]" and f: "snd (scan_plan os self) = None" by blast+
  have nz: "?n \<noteq> 0" using assms(2) by simp
  from generate_benign [OF assms(1) f nz, of include_checksums w]
  obtain self' w' where g: "generate os self include_checksums w = Some (Inr self', w')" by blast
  from generate_success [OF g] obtain ts where
    e: "events w' = events w @ Info (bmap_file_start_xml os self) # ts @ [Info (footer os self ?mc)]" and
    l: "list_all2 emits ?steps ts" and
    s: "self' = finished self ?mc"
    by blast
  from emitted_outputs [OF scan_plan_steps l] obtain items where
    o: "outputs ts = map range_element items" and ys: "map snd items = yields ?steps"
    by blast
  from ys y have "map snd items = [(0, ?n - 1)]" by simp
  then obtain sha1 where i: "items = [(sha1, 0, ?n - 1)]"
    by (cases items) auto
  have mc: "?mc = ?n" by (simp add: y range_length_def)
  have pct: "real_of_int ?n * 100 / real_of_int ?n = 100" using nz by simp
  have o': "outputs (events w') =
      outputs (events w) @
        [bmap_file_start_xml os self, range_xml sha1 0 (?n - 1),
         bmap_file_end_xml os (?n * bmap_block_size self) 100 ?n]"
    unfolding e mc by (simp add: o i footer_def range_element_def pct)
  have p: "bmap_mapped_percent self' = Some 100"
    unfolding s mc by (simp add: finished_def pct)
  have x: "\<exists>sha1. outputs (events w') =
      outputs (events w) @
        [bmap_file_start_xml os self, range_xml sha1 0 (?n - 1),
         bmap_file_end_xml os (?n * bmap_block_size self) 100 ?n]"
    by (rule exI [where x = sha1]) (rule o')
  show "case generate os self include_checksums w of
               None \<Rightarrow> False
             | Some (Inl e, w') \<Rightarrow> False
             | Some (Inr self', w') \<Rightarrow>
                 (\<exists>sha1. outputs (events w') =
                    outputs (events w) @
                      [bmap_file_start_xml os self,
                       range_xml sha1 0 (bmap_blocks_cnt self - 1),
                       bmap_file_end_xml os (bmap_blocks_cnt self * bmap_block_size self) 100
                         (bmap_blocks_cnt self)]) \<and>
                 bmap_mapped_percent self' = Some 100"
    unfolding g using x p by simp
next
  let ?n = "bmap_blocks_cnt self"
  let ?steps = "fst (scan_plan os self)"
  let ?mc = "sum_list (map range_length (yields ?steps))"
  assume m: "\<forall>b. 0 \<le> b \<and> b < ?n \<longrightarrow> \<not> mapped os b"
  have am: "\<forall>b. 0 \<le> b \<and> b < ?n \<longrightarrow> answered os b \<and> \<not> mapped os b"
    using assms(4) m by blast
  from scan_plan_all_unmapped [OF assms(2,3) am]
  have y: "yields ?steps = []" and f: "snd (scan_plan os self) = None" by blast+
  have nz: "?n \<noteq> 0" using assms(2) by simp
  from generate_benign [OF assms(1) f nz, of include_checksums w]
  obtain self' w' where g: "generate os self include_checksums w = Some (Inr self', w')" by blast
  from generate_success [OF g] obtain ts where
    e: "events w' = events w @ Info (bmap_file_start_xml os self) # ts @ [Info (footer os self ?mc)]" and
    l: "list_all2 emits ?steps ts" and
    s: "self' = finished self ?mc"
    by blast
  from emitted_outputs [OF scan_plan_steps l] obtain items where
    o: "outputs ts = map range_element items" and ys: "map snd items = yields ?steps"
    by blast
  from ys y have i: "items = []" by simp
  have mc: "?mc = 0" by (simp add: y)
  have o': "outputs (events w') =
      outputs (events w) @ [bmap_file_start_xml os self, bmap_file_end_xml os 0 0 0]"
    unfolding e mc by (simp add: o i footer_def)
  have p: "bmap_mapped_percent self' = Some 0"
    unfolding s mc by (simp add: finished_def)
  show "case generate os self include_checksums w of
               None \<Rightarrow> False
             | Some (Inl e, w') \<Rightarrow> False
             | Some (Inr self', w') \<Rightarrow>
                 outputs (events w') =
                   outputs (events w) @ [bmap_file_start_xml os self, bmap_file_end_xml os 0 0 0] \<and>
                 bmap_mapped_percent self' = Some 0"
    unfolding g using o' p by simp
qed

theorem all_mapped_or_all_unmapped_witness:
  "(case generate (example_os (\<lambda>b. Inr 7)) (example_creator 3) False (example_world []) of
      None \<Rightarrow> False
    | Some (Inl e, w') \<Rightarrow> False
    | Some (Inr self', w') \<Rightarrow>
        (\<exists>sha1. outputs (events w') =
           outputs (events (example_world [])) @
             [bmap_file_start_xml (example_os (\<lambda>b. Inr 7)) (example_creator 3),
              range_xml sha1 0 (bmap_blocks_cnt (example_creator 3) - 1),
              bmap_file_end_xml (example_os (\<lambda>b. Inr 7))
                (bmap_blocks_cnt (example_creator 3) * bmap_block_size (example_creator 3)) 100
                (bmap_blocks_cnt (example_creator 3))]) \<and>
        bmap_mapped_percent self' = Some 100) \<and>
   (case generate (example_os (\<lambda>b. Inr 0)) (example_creator 3) False (example_world []) of
      None \<Rightarrow> False
    | Some (Inl e, w') \<Rightarrow> False
    | Some (Inr self', w') \<Rightarrow>
        outputs (events w') =
          outputs (events (example_world [])) @
            [bmap_file_start_xml (example_os (\<lambda>b. Inr 0)) (example_creator 3),
             bmap_file_end_xml (example_os (\<lambda>b. Inr 0)) 0 0 0] \<and>
        bmap_mapped_percent self' = Some 0) \<and>
   bmap_blocks_cnt (example_creator 3) = 3"
proof -
  let ?self = "example_creator 3"
  have n: "bmap_blocks_cnt ?self = 3" by (simp add: example_creator_def new_creator_def)
  have h1: "benign (example_os (\<lambda>b. Inr v))" for v
    by (simp add: benign_def example_os_def)
  have h2: "0 < bmap_blocks_cnt ?self" unfolding n by simp
  have h3: "bmap_blocks_cnt ?self \<le> 2 ^ 32" unfolding n by simp
  have h4: "\<forall>b. 0 \<le> b \<and> b < bmap_blocks_cnt ?self \<longrightarrow> answered (example_os (\<lambda>b. Inr v)) b" for v
    by (simp add: answered_def example_os_def)
  have m: "\<forall>b. 0 \<le> b \<and> b < bmap_blocks_cnt ?self \<longrightarrow> mapped (example_os (\<lambda>b. Inr 7)) b"
    by (simp add: mapped_def example_os_def)
  have u: "\<forall>b. 0 \<le> b \<and> b < bmap_blocks_cnt ?self \<longrightarrow> \<not> mapped (example_os (\<lambda>b. Inr 0)) b"
    by (simp add: mapped_def example_os_def)
  note a = all_mapped_or_all_unmapped [OF h1 h2 h3 h4, where include_checksums = False
      and w = "example_world []", THEN conjunct1, THEN mp, OF m]
  note b = all_mapped_or_all_unmapped [OF h1 h2 h3 h4, where include_checksums = False
      and w = "example_world []", THEN conjunct2, THEN mp, OF u]
  show ?thesis by (intro conjI a b n)
qed

lemma exec_no_yields:
  "yields steps = [] \<Longrightarrow>
     exec yield steps fin a w =
       Some ((case fin of None \<Rightarrow> Inr a | Some e \<Rightarrow> Inl e),
             w\<lparr>events := events w @ step_events steps\<rparr>)"
proof (induction steps arbitrary: w)
  case Nil
  show ?case by simp
next
  case (Cons s steps)
  show ?case
  proof (cases s)
    case (Ev e)
    with Cons.prems have "yields steps = []" by simp
    from Cons.IH [OF this] show ?thesis unfolding Ev by simp
  next
    case (Yield f l)
    with Cons.prems show ?thesis by simp
  qed
qed

lemma outputs_queries:
  "\<forall>s \<in> set steps. is_query s \<or> (\<exists>a b. s = Yield a b) \<Longrightarrow> outputs (step_events steps) = []"
proof (induction steps)
  case Nil
  show ?case by simp
next
  case (Cons s steps)
  then have ih: "outputs (step_events steps) = []" by simp
  from Cons.prems have "is_query s \<or> (\<exists>a b. s = Yield a b)" by simp
  then show ?case
  proof
    assume "is_query s"
    then obtain b where "s = Ev (Ioctl 1 b)" unfolding is_query_def ..
    then show ?thesis using ih by simp
  next
    assume "\<exists>a b. s = Yield a b"
    then obtain a b where "s = Yield a b" by blast
    then show ?thesis using ih by simp
  qed
qed

text \<open>
  Claim C7 does not hold of every \<open>N\<close>. On the image of \<open>2^32 + 1\<close> blocks, with an ioctl
  that answers for every block and maps every block and no failure of flushing,
  synchronising or reading, the generation fails with \<^verbatim>\<open>struct.error\<close>: the logger has
  received the header, and neither a range element nor a footer.
\<close>

theorem generate_beyond_pack_bound:
  "bmap_blocks_cnt (example_creator (2 ^ 32 + 1)) = 2 ^ 32 + 1 \<and>
   (\<forall>b. answered (example_os (\<lambda>b. Inr 7)) b \<and> mapped (example_os (\<lambda>b. Inr 7)) b) \<and>
   benign (example_os (\<lambda>b. Inr 7)) \<and>
   (case generate (example_os (\<lambda>b. Inr 7)) (example_creator (2 ^ 32 + 1)) False
           (probe_world (example_world big_image)) of
      None \<Rightarrow> False
    | Some (Inl e, w') \<Rightarrow>
        e = StructError \<and>
        outputs (events w') = [bmap_file_start_xml (example_os (\<lambda>b. Inr 7)) (example_creator (2 ^ 32 + 1))]
    | Some (Inr self', w') \<Rightarrow> False)"
proof -
  let ?os = "example_os (\<lambda>b. Inr 7)"
  let ?self = "example_creator (2 ^ 32 + 1)"
  let ?w = "probe_world (example_world big_image)"
  let ?steps = "fst (scan_plan ?os ?self)"
  have 2: "\<forall>b. answered ?os b \<and> mapped ?os b"
    by (simp add: answered_def mapped_def example_os_def)
  have 3: "benign ?os" by (simp add: benign_def example_os_def)
  have y: "yields ?steps = []" by (rule big_scan_plan [THEN conjunct1])
  have f: "snd (scan_plan ?os ?self) = Some StructError" by (rule big_scan_plan [THEN conjunct2])
  have fl: "flush_err ?os = None" "fsync_err ?os = None" by (simp_all add: example_os_def)
  have o: "outputs (step_events ?steps) = []"
    by (rule outputs_queries [OF scan_plan_steps])
  have g: "generate ?os ?self False ?w =
      Some (Inl StructError,
            ((bmap_file_start ?os ?self ?w)\<lparr>pos := 0\<rparr>)
              \<lparr>events := events ((bmap_file_start ?os ?self ?w)\<lparr>pos := 0\<rparr>) @ step_events ?steps\<rparr>)"
    unfolding generate_unfold fl exec_no_yields [OF y] f by simp
  have 4: "case generate ?os ?self False ?w of
      None \<Rightarrow> False
    | Some (Inl e, w') \<Rightarrow>
        e = StructError \<and> outputs (events w') = [bmap_file_start_xml ?os ?self]
    | Some (Inr self', w') \<Rightarrow> False"
    unfolding g using o
    by (simp add: bmap_file_start_def info_def probe_world_def example_world_def)
  show ?thesis by (intro conjI big_blocks_cnt 2 3 4)
qed

subsection \<open>The checksum of a range after a hole\<close>

lemma example_generate_checksum:
  "generate (example_os hole_then_data\<lparr>sha1_hexdigest := H\<rparr>) (example_creator 2) True
       (example_world hole_then_data_image) =
     Some (Inr (finished (example_creator 2) 1),
           \<lparr>image_bytes = hole_then_data_image, pos = 4096,
            events =
              [Info (bmap_file_start_xml (example_os hole_then_data\<lparr>sha1_hexdigest := H\<rparr>) (example_creator 2)),
               Ioctl 1 0, Ioctl 1 1,
               Info (range_xml (sha1_attr (H (replicate 4096 0))) 1 1),
               Info (footer (example_os hole_then_data\<lparr>sha1_hexdigest := H\<rparr>) (example_creator 2) 1)]\<rparr>)"
  by (simp add: generate_def get_ranges_def is_mapped_def generate_body_def calculate_sha1_def
        sha1_loop.simps file_read_def bmap_file_end_def bmap_file_start_def info_def Let_def
        example_os_def example_world_def example_creator_def new_creator_def hole_then_data_def
        hole_then_data_image_def finished_def footer_def upto_rec1)

text \<open>
  Claim C1. \<^verbatim>\<open>_calculate_sha1\<close> computes the offset \<open>start\<close> of the range but does not
  seek to it: it reads on from where the \<^verbatim>\<open>seek(0)\<close> of \<^verbatim>\<open>generate\<close> or the previous
  checksum left the file. On the image of two blocks of 4096 bytes whose block 0 is a hole
  and whose block 1 is mapped, the generation with checksums succeeds and the checksum it
  emits for the range \<open>1-1\<close> is the digest of the 4096 zeros of block 0, for every digest
  function \<open>H\<close>; the bytes of the range, from offset 4096 to offset 8192, are 4096 ones.
\<close>

theorem checksum_of_range_after_hole:
  "generate (example_os hole_then_data\<lparr>sha1_hexdigest := H\<rparr>) (example_creator 2) True
       (example_world hole_then_data_image) =
     Some (Inr (finished (example_creator 2) 1),
           \<lparr>image_bytes = hole_then_data_image, pos = 4096,
            events =
              [Info (bmap_file_start_xml (example_os hole_then_data\<lparr>sha1_hexdigest := H\<rparr>) (example_creator 2)),
               Ioctl 1 0, Ioctl 1 1,
               Info (range_xml (sha1_attr (H (replicate 4096 0))) 1 1),
               Info (footer (example_os hole_then_data\<lparr>sha1_hexdigest := H\<rparr>) (example_creator 2) 1)]\<rparr>) \<and>
   take (nat ((1 + 1) * 4096 - 1 * 4096)) (drop (nat (1 * 4096)) hole_then_data_image) = replicate 4096 1 \<and>
   bmap_block_size (example_creator 2) = 4096 \<and>
   replicate 4096 (0 :: byte) \<noteq> replicate 4096 1"
proof -
  have 2: "take (nat ((1 + 1) * 4096 - 1 * 4096)) (drop (nat (1 * 4096)) hole_then_data_image) =
      replicate 4096 1"
    by (simp add: hole_then_data_image_def)
  have 3: "bmap_block_size (example_creator 2) = 4096"
    by (simp add: example_creator_def new_creator_def)
  have 4: "replicate 4096 (0 :: byte) \<noteq> replicate 4096 1"
    by (simp add: replicate_eq_replicate)
  show ?thesis by (intro conjI example_generate_checksum 2 3 4)
qed

end
